theory Spec2Isabelle
  imports Main "HOL-Library.Word"
begin

unbundle bit_operations_syntax

section \<open>Machine types\<close>

text \<open>
  Both source files are built for 32-bit ARM (the secure-monitor file issues the
  \<^verbatim>\<open>smc\<close> instruction on the registers r0..r2 and reads CP15): \<^verbatim>\<open>u32\<close>,
  \<^verbatim>\<open>unsigned int\<close>, \<^verbatim>\<open>unsigned long\<close> and \<^verbatim>\<open>size_t\<close> are 32-bit words whose
  arithmetic wraps around. A C \<^verbatim>\<open>int\<close> is kept as its 32-bit pattern and read with
  \<open>sint\<close> where its sign matters.
\<close>

type_synonym u8 = "8 word"
type_synonym u32 = "32 word"

text \<open>Error numbers of the kernel (errno-base.h); the code returns them negated.\<close>

abbreviation (input) ENOMEM :: u32 where "ENOMEM \<equiv> 12"
abbreviation (input) EBUSY :: u32 where "EBUSY \<equiv> 16"
abbreviation (input) EINVAL :: u32 where "EINVAL \<equiv> 22"

section \<open>The secure-monitor command buffer\<close>

subsection \<open>Wire format and memory\<close>

text \<open>
  A \<^verbatim>\<open>__le32\<close> field is its four bytes in memory, least significant first.
  \<open>cpu_to_le32\<close> produces them, \<open>le32_to_cpu\<close> reads them back.
\<close>

definition cpu_to_le32 :: "u32 \<Rightarrow> u8 list" where
  "cpu_to_le32 v = [ucast v, ucast (drop_bit 8 v), ucast (drop_bit 16 v), ucast (drop_bit 24 v)]"

definition le32_to_cpu :: "u8 list \<Rightarrow> u32" where
  "le32_to_cpu bs = foldr (\<lambda>b acc. ucast b OR push_bit 8 acc) (take 4 bs) 0"

text \<open>
  An allocation is the list of its bytes. \<open>store off src mem\<close> is
  \<^verbatim>\<open>memcpy(mem + off, src, length src)\<close> and \<open>load off n mem\<close> the \<open>n\<close> bytes at
  \<open>mem + off\<close>. Both are only meaningful inside the allocation: as functions on
  lists they are total, and a read that reaches past the end gives fewer bytes, which
  \<open>get_le32\<close> takes as 0, where the C code reads whatever memory follows. So
  \<^verbatim>\<open>qcom_scm_call\<close> below checks the bounds before each access and gives
  \<open>Undefined_behaviour\<close> where the C code would leave the allocation, and the
  statements about the allocator only read a response header that lies inside the
  block.
\<close>

definition store :: "nat \<Rightarrow> u8 list \<Rightarrow> u8 list \<Rightarrow> u8 list" where
  "store off src mem = take off mem @ src @ drop (off + length src) mem"

definition load :: "nat \<Rightarrow> nat \<Rightarrow> u8 list \<Rightarrow> u8 list" where
  "load off n mem = take n (drop off mem)"

definition put_le32 :: "nat \<Rightarrow> u32 \<Rightarrow> u8 list \<Rightarrow> u8 list" where
  "put_le32 off v mem = store off (cpu_to_le32 v) mem"

definition get_le32 :: "u8 list \<Rightarrow> nat \<Rightarrow> u32" where
  "get_le32 mem off = le32_to_cpu (load off 4 mem)"

text \<open>
  \<^verbatim>\<open>struct qcom_scm_command { __le32 len, buf_offset, resp_hdr_offset, id; __le32 buf[0]; }\<close>
  and \<^verbatim>\<open>struct qcom_scm_response { __le32 len, buf_offset, is_complete; }\<close>:
  sizes and field offsets.
\<close>

abbreviation (input) sizeof_qcom_scm_command :: nat where "sizeof_qcom_scm_command \<equiv> 16"
abbreviation (input) sizeof_qcom_scm_response :: nat where "sizeof_qcom_scm_response \<equiv> 12"
abbreviation (input) cmd_len_off :: nat where "cmd_len_off \<equiv> 0"
abbreviation (input) cmd_buf_offset_off :: nat where "cmd_buf_offset_off \<equiv> 4"
abbreviation (input) cmd_resp_hdr_offset_off :: nat where "cmd_resp_hdr_offset_off \<equiv> 8"
abbreviation (input) cmd_id_off :: nat where "cmd_id_off \<equiv> 12"
abbreviation (input) cmd_buf_off :: nat where "cmd_buf_off \<equiv> 16"
abbreviation (input) rsp_len_off :: nat where "rsp_len_off \<equiv> 0"
abbreviation (input) rsp_buf_offset_off :: nat where "rsp_buf_offset_off \<equiv> 4"
abbreviation (input) rsp_is_complete_off :: nat where "rsp_is_complete_off \<equiv> 8"

subsection \<open>The environment of the SCM client\<close>

text \<open>
  What the file takes from outside:
  \<^item> \<open>PAGE_SHIFT\<close>: the page size is \<open>2 ^ PAGE_SHIFT\<close>;
  \<^item> \<open>kzalloc\<close>: whether an allocation of the given size succeeds (the block is zeroed);
  \<^item> \<open>qcom_scm_remap_error\<close>: the error translation of \<^verbatim>\<open>qcom_scm.h\<close>, which is
    not part of the sources at hand;
  \<^item> \<open>smc_insn cmd n\<close>: the value the secure monitor leaves in r0 at the \<open>n\<close>-th issue
    of the trap on the command buffer \<open>cmd\<close>;
  \<^item> \<open>shared_mem cmd k\<close>: the bytes of the allocation as the caller reads them once the
    trap on \<open>cmd\<close> has returned and \<open>k\<close> cache invalidations have been done.
\<close>

record scm_env =
  PAGE_SHIFT :: nat
  kzalloc :: "u32 \<Rightarrow> bool"
  qcom_scm_remap_error :: "u32 \<Rightarrow> u32"
  smc_insn :: "u8 list \<Rightarrow> nat \<Rightarrow> u32"
  shared_mem :: "u8 list \<Rightarrow> nat \<Rightarrow> u8 list"

text \<open>
  Modelled from the spec: the macro \<^verbatim>\<open>PAGE_ALIGN\<close> is missing from the sources; the
  block is "rounded up to the platform page size", which the kernel computes as
  \<^verbatim>\<open>(x + PAGE_SIZE - 1) & ~(PAGE_SIZE - 1)\<close> in the width of \<^verbatim>\<open>size_t\<close>.
\<close>

definition PAGE_ALIGN :: "nat \<Rightarrow> u32 \<Rightarrow> u32" where
  "PAGE_ALIGN ps x = (x + (push_bit ps 1 - 1)) AND NOT (push_bit ps 1 - 1)"

subsection \<open>alloc_qcom_scm_command\<close>

text \<open>
  The result is \<open>Null\<close> when \<^verbatim>\<open>kzalloc\<close> fails, and \<open>Cmd mem\<close> with the bytes of
  the block otherwise. A block smaller than the command header (the size has wrapped
  around to zero) cannot take the header writes: \<open>Undefined_alloc\<close>.
\<close>

datatype alloc_result = Null | Undefined_alloc | Cmd (the_cmd: "u8 list")

definition alloc_len :: "u32 \<Rightarrow> u32 \<Rightarrow> u32" where
  "alloc_len cmd_size resp_size =
     of_nat sizeof_qcom_scm_command + of_nat sizeof_qcom_scm_response + cmd_size + resp_size"

definition alloc_qcom_scm_command :: "scm_env \<Rightarrow> u32 \<Rightarrow> u32 \<Rightarrow> alloc_result" where
  "alloc_qcom_scm_command env cmd_size resp_size =
     (let len = alloc_len cmd_size resp_size;
          sz = PAGE_ALIGN (PAGE_SHIFT env) len
      in if \<not> kzalloc env sz then Null
         else if unat sz < sizeof_qcom_scm_command then Undefined_alloc
         else
           let cmd = replicate (unat sz) 0;
               cmd = put_le32 cmd_len_off len cmd;
               offset = of_nat cmd_buf_off;
               cmd = put_le32 cmd_buf_offset_off offset cmd;
               cmd = put_le32 cmd_resp_hdr_offset_off (offset + cmd_size) cmd
           in Cmd cmd)"

text \<open>\<^verbatim>\<open>qcom_scm_command_to_response\<close> and \<^verbatim>\<open>qcom_scm_get_response_buffer\<close>, as
  offsets from the start of the allocation (pointer arithmetic on 32-bit addresses).
  Each reads one header field, so it is used only where that header is known to lie
  inside \<open>mem\<close>.\<close>

definition qcom_scm_command_to_response :: "u8 list \<Rightarrow> u32" where
  "qcom_scm_command_to_response cmd = get_le32 cmd cmd_resp_hdr_offset_off"

definition qcom_scm_get_response_buffer :: "u8 list \<Rightarrow> u32 \<Rightarrow> u32" where
  "qcom_scm_get_response_buffer mem rsp = rsp + get_le32 mem (unat rsp + rsp_buf_offset_off)"

subsection \<open>The trap: smc and __qcom_scm_call\<close>

abbreviation (input) QCOM_SCM_INTERRUPTED :: u32 where "QCOM_SCM_INTERRUPTED \<equiv> 1"

text \<open>
  \<^verbatim>\<open>do { smc #0 } while (r0 == QCOM_SCM_INTERRUPTED)\<close>. The loop has no bound, so
  \<open>smc\<close> is a partial function: \<open>None\<close> is the run that never leaves the loop.
  \<open>smc env cmd n\<close> is the loop entered when \<open>n\<close> traps have been issued; it returns
  r0 and the number of traps issued in all.
\<close>

partial_function (option) smc :: "scm_env \<Rightarrow> u8 list \<Rightarrow> nat \<Rightarrow> (u32 \<times> nat) option" where
  "smc env cmd n =
     (let r0 = smc_insn env cmd n
      in if r0 = QCOM_SCM_INTERRUPTED then smc env cmd (Suc n) else Some (r0, Suc n))"

text \<open>What the client does to the world, in the order of the calls in the source.
  \<open>Smc cmd\<close> is one issue of the trap, with the bytes of the command buffer at the
  physical address passed in r2; \<open>Inv_range start end\<close> is one call of
  \<^verbatim>\<open>qcom_scm_inv_range\<close>, with addresses relative to the start of the allocation.\<close>

datatype scm_event =
    Kzalloc u32
  | Memcpy_cmd
  | Mutex_lock
  | Secure_flush_area
  | Smc "u8 list"
  | Mutex_unlock
  | Inv_range u32 u32
  | Memcpy_resp
  | Kfree

text \<open>\<^verbatim>\<open>__qcom_scm_call\<close>: the result code and the events of the call.\<close>

definition uu_qcom_scm_call :: "scm_env \<Rightarrow> u8 list \<Rightarrow> (u32 \<times> scm_event list) option" where
  "uu_qcom_scm_call env cmd =
     (case smc env cmd 0 of
        None \<Rightarrow> None
      | Some (r0, n) \<Rightarrow>
          let ret = r0;
              ret = (if sint ret < 0 then qcom_scm_remap_error env ret else ret)
          in Some (ret, Secure_flush_area # replicate n (Smc cmd)))"

subsection \<open>qcom_scm_call\<close>

text \<open>
  The first lines of \<^verbatim>\<open>qcom_scm_call\<close>, up to the lock: allocate the buffer, store
  the identifier, copy the request in when \<^verbatim>\<open>cmd_buf\<close> is not NULL. A request that
  does not fit the allocation, or a source shorter than \<^verbatim>\<open>cmd_len\<close>, is an access
  outside an object: \<open>Undefined_alloc\<close>.
\<close>

definition qcom_scm_call_prepare ::
  "scm_env \<Rightarrow> u32 \<Rightarrow> u32 \<Rightarrow> u8 list option \<Rightarrow> u32 \<Rightarrow> u32 \<Rightarrow> alloc_result" where
  "qcom_scm_call_prepare env svc_id cmd_id cmd_buf cmd_len resp_len =
     (case alloc_qcom_scm_command env cmd_len resp_len of
        Null \<Rightarrow> Null
      | Undefined_alloc \<Rightarrow> Undefined_alloc
      | Cmd cmd \<Rightarrow>
          let cmd = put_le32 cmd_id_off (push_bit 10 svc_id OR cmd_id) cmd
          in (case cmd_buf of
                None \<Rightarrow> Cmd cmd
              | Some src \<Rightarrow>
                  if length src < unat cmd_len \<or> length cmd < cmd_buf_off + unat cmd_len
                  then Undefined_alloc
                  else Cmd (store cmd_buf_off (take (unat cmd_len) src) cmd)))"

text \<open>
  \<^verbatim>\<open>do { qcom_scm_inv_range(start, start + sizeof(*rsp)); } while (!rsp->is_complete)\<close>:
  no bound either. \<open>wait_complete view rsp k\<close> is the loop entered after \<open>k\<close>
  invalidations, \<open>rsp\<close> the offset of the response header; it returns the number of
  invalidations done when the flag was read as set.
\<close>

datatype poll_result = Undefined_poll | Complete nat

partial_function (option) wait_complete :: "(nat \<Rightarrow> u8 list) \<Rightarrow> nat \<Rightarrow> nat \<Rightarrow> poll_result option" where
  "wait_complete view rsp k =
     (let mem = view (Suc k)
      in if length mem < rsp + sizeof_qcom_scm_response then Some Undefined_poll
         else if get_le32 mem (rsp + rsp_is_complete_off) \<noteq> 0 then Some (Complete (Suc k))
         else wait_complete view rsp (Suc k))"

text \<open>
  The outcome of \<^verbatim>\<open>qcom_scm_call\<close>: the value returned, the caller's response
  buffer after the call (\<open>None\<close> for a NULL pointer) and the events; or an access
  outside the allocation. \<open>None\<close> is a call that never returns.
\<close>

datatype scm_outcome = Undefined_behaviour | Return u32 "u8 list option" "scm_event list"

definition qcom_scm_call ::
  "scm_env \<Rightarrow> u32 \<Rightarrow> u32 \<Rightarrow> u8 list option \<Rightarrow> u32 \<Rightarrow> u8 list option \<Rightarrow> u32 \<Rightarrow> scm_outcome option" where
  "qcom_scm_call env svc_id cmd_id cmd_buf cmd_len resp_buf resp_len =
     (let sz = PAGE_ALIGN (PAGE_SHIFT env) (alloc_len cmd_len resp_len);
          copy = (case cmd_buf of None \<Rightarrow> [] | Some src \<Rightarrow> [Memcpy_cmd])
      in case qcom_scm_call_prepare env svc_id cmd_id cmd_buf cmd_len resp_len of
           Null \<Rightarrow> Some (Return (- ENOMEM) resp_buf [Kzalloc sz])
         | Undefined_alloc \<Rightarrow> Some Undefined_behaviour
         | Cmd cmd \<Rightarrow>
            (case uu_qcom_scm_call env cmd of
               None \<Rightarrow> None
             | Some (ret, trap) \<Rightarrow>
                let pre = [Kzalloc sz] @ copy @ [Mutex_lock] @ trap @ [Mutex_unlock]
                in if ret \<noteq> 0 then Some (Return ret resp_buf (pre @ [Kfree]))
                   else
                    let view = shared_mem env cmd
                    in if length (view 0) < sizeof_qcom_scm_command then Some Undefined_behaviour
                       else
                        let rsp = qcom_scm_command_to_response (view 0);
                            start = rsp
                        in (case wait_complete view (unat rsp) 0 of
                              None \<Rightarrow> None
                            | Some Undefined_poll \<Rightarrow> Some Undefined_behaviour
                            | Some (Complete k) \<Rightarrow>
                               let polls = replicate k
                                     (Inv_range start (start + of_nat sizeof_qcom_scm_response));
                                   end_addr = qcom_scm_get_response_buffer (view k) rsp + resp_len;
                                   mem = view (Suc k);
                                   tr = pre @ polls @ [Inv_range start end_addr]
                               in (case resp_buf of
                                     None \<Rightarrow> Some (Return ret None (tr @ [Kfree]))
                                   | Some dst \<Rightarrow>
                                      if length mem < unat rsp + sizeof_qcom_scm_response
                                      then Some Undefined_behaviour
                                      else
                                       let src = unat (qcom_scm_get_response_buffer mem rsp)
                                       in if length mem < src + unat resp_len \<or>
                                             length dst < unat resp_len
                                          then Some Undefined_behaviour
                                          else Some (Return ret
                                                 (Some (load src (unat resp_len) mem @
                                                        drop (unat resp_len) dst))
                                                 (tr @ [Memcpy_resp, Kfree]))))))"

section \<open>The mux/divider clock\<close>

subsection \<open>Data\<close>

text \<open>
  \<^verbatim>\<open>struct clk_regmap_mux_div\<close> (its header is not among the sources; the fields are
  those the driver uses). The field \<^verbatim>\<open>div\<close> is \<open>md_div\<close> here, \<open>div\<close> being
  HOL's division. \<open>parent_map i\<close> is \<^verbatim>\<open>parent_map[i].cfg\<close>.
\<close>

record clk_regmap_mux_div =
  reg_offset :: u32
  hid_width :: u32
  hid_shift :: u32
  src_width :: u32
  src_shift :: u32
  md_div :: u32
  src_sel :: u32
  parent_map :: "nat \<Rightarrow> u32"

text \<open>A parent clock, as the clock framework shows it: \<^verbatim>\<open>clk_hw_get_rate\<close> and
  \<^verbatim>\<open>clk_hw_round_rate\<close>. The parents of a clock are a list, indexed from 0.\<close>

record clk_parent =
  get_rate :: u32
  round_rate :: "u32 \<Rightarrow> u32"

text \<open>\<^verbatim>\<open>struct clk_rate_request\<close>: the fields the driver reads and writes;
  \<open>best_parent_hw\<close> is the index of the parent.\<close>

record clk_rate_request =
  rate :: u32
  best_parent_rate :: u32
  best_parent_hw :: "nat option"

text \<open>
  The register map is outside the driver. Its answers are functions of the operations
  done so far: \<open>regmap_update_bits rm tr reg mask val\<close> is the return code of the call
  made after the operations \<open>tr\<close>, \<open>regmap_read rm tr reg\<close> the return code and the
  value left in \<^verbatim>\<open>val\<close>.
\<close>

datatype reg_event =
    Regmap_update_bits u32 u32 u32
  | Regmap_read u32
  | Udelay nat
  | Pr_err string

record regmap =
  regmap_update_bits :: "reg_event list \<Rightarrow> u32 \<Rightarrow> u32 \<Rightarrow> u32 \<Rightarrow> u32"
  regmap_read :: "reg_event list \<Rightarrow> u32 \<Rightarrow> u32 \<times> u32"

definition BIT :: "u32 \<Rightarrow> u32" where
  "BIT nr = push_bit (unat nr) 1"

abbreviation (input) CMD_RCGR :: u32 where "CMD_RCGR \<equiv> 0"
abbreviation (input) CMD_RCGR_UPDATE :: u32 where "CMD_RCGR_UPDATE \<equiv> BIT 0"
abbreviation (input) CMD_RCGR_DIRTY_CFG :: u32 where "CMD_RCGR_DIRTY_CFG \<equiv> BIT 4"
abbreviation (input) CFG_RCGR :: u32 where "CFG_RCGR \<equiv> 4"

text \<open>
  Modelled from the spec: the macro \<^verbatim>\<open>mult_frac\<close> is missing from the sources; it is
  \<open>x * numer / denom\<close> ("requested*div/2", "parent_rate * 2 / (div+1)"), which the
  kernel computes from the quotient and the remainder of \<open>x\<close> by \<open>denom\<close>, in the
  type of \<open>x\<close>. The callers below never pass a zero \<open>denom\<close> without a check.
\<close>

definition mult_frac :: "u32 \<Rightarrow> u32 \<Rightarrow> u32 \<Rightarrow> u32" where
  "mult_frac x numer denom =
     (let quot = x div denom;
          rem = x mod denom
      in quot * numer + (rem * numer) div denom)"

subsection \<open>Programming the registers\<close>

text \<open>The poll of \<^verbatim>\<open>__mux_div_update_config\<close>, \<open>count\<close> checks left.\<close>

fun update_config_poll :: "regmap \<Rightarrow> clk_regmap_mux_div \<Rightarrow> nat \<Rightarrow> reg_event list \<Rightarrow> u32 \<times> reg_event list" where
  "update_config_poll rm md 0 tr =
     (- EBUSY, tr @ [Pr_err ''RCG did not update its configuration''])"
| "update_config_poll rm md (Suc count) tr =
     (let (ret, val) = regmap_read rm tr (CMD_RCGR + reg_offset md);
          tr = tr @ [Regmap_read (CMD_RCGR + reg_offset md)]
      in if ret \<noteq> 0 then (ret, tr)
         else if val AND CMD_RCGR_UPDATE = 0 then (0, tr)
         else update_config_poll rm md count (tr @ [Udelay 1]))"

definition uu_mux_div_update_config :: "regmap \<Rightarrow> clk_regmap_mux_div \<Rightarrow> reg_event list \<Rightarrow> u32 \<times> reg_event list" where
  "uu_mux_div_update_config rm md tr =
     (let ret = regmap_update_bits rm tr (CMD_RCGR + reg_offset md) CMD_RCGR_UPDATE CMD_RCGR_UPDATE;
          tr = tr @ [Regmap_update_bits (CMD_RCGR + reg_offset md) CMD_RCGR_UPDATE CMD_RCGR_UPDATE]
      in if ret \<noteq> 0 then (ret, tr)
         else update_config_poll rm md 500 tr)"

definition uu_mux_div_set_src_div ::
  "regmap \<Rightarrow> clk_regmap_mux_div \<Rightarrow> u32 \<Rightarrow> u32 \<Rightarrow> reg_event list \<Rightarrow> u32 \<times> reg_event list" where
  "uu_mux_div_set_src_div rm md src_sel' src_div tr =
     (let val = push_bit (unat (hid_shift md)) src_div OR push_bit (unat (src_shift md)) src_sel';
          mask = push_bit (unat (hid_shift md)) (BIT (hid_width md) - 1) OR
                 push_bit (unat (src_shift md)) (BIT (src_width md) - 1);
          ret = regmap_update_bits rm tr (CFG_RCGR + reg_offset md) mask val;
          tr = tr @ [Regmap_update_bits (CFG_RCGR + reg_offset md) mask val]
      in if ret \<noteq> 0 then (ret, tr)
         else uu_mux_div_update_config rm md tr)"

text \<open>
  \<^verbatim>\<open>__mux_div_get_src_div\<close> writes \<^verbatim>\<open>*src_sel\<close> and \<^verbatim>\<open>*src_div\<close> only when the
  configuration is not pending. Its callers pass the addresses of locals that they
  have not initialised, so the model takes the contents of these locals before the
  call, \<open>(src0, div0)\<close>, and returns them after it.
\<close>

definition uu_mux_div_get_src_div ::
  "regmap \<Rightarrow> clk_regmap_mux_div \<Rightarrow> u32 \<times> u32 \<Rightarrow> reg_event list \<Rightarrow> (u32 \<times> u32) \<times> reg_event list" where
  "uu_mux_div_get_src_div rm md locals tr =
     (let (src0, div0) = locals;
          (ret, val) = regmap_read rm tr (CMD_RCGR + reg_offset md);
          tr = tr @ [Regmap_read (CMD_RCGR + reg_offset md)]
      in if val AND CMD_RCGR_DIRTY_CFG \<noteq> 0
         then ((src0, div0), tr @ [Pr_err ''RCG configuration is pending''])
         else
           let (ret, val) = regmap_read rm tr (CFG_RCGR + reg_offset md);
               tr = tr @ [Regmap_read (CFG_RCGR + reg_offset md)];
               src = drop_bit (unat (src_shift md)) val;
               src = src AND (BIT (src_width md) - 1);
               d = drop_bit (unat (hid_shift md)) val;
               d = d AND (BIT (hid_width md) - 1)
           in ((src, d), tr))"

subsection \<open>The search for a rate\<close>

definition is_better_rate :: "u32 \<Rightarrow> u32 \<Rightarrow> u32 \<Rightarrow> bool" where
  "is_better_rate req best new \<longleftrightarrow> (req \<le> new \<and> new < best) \<or> (best < req \<and> best < new)"

text \<open>
  The inner loop of \<^verbatim>\<open>mux_div_determine_rate\<close> for the parent of index \<open>i\<close>,
  entered at the divider \<open>d\<close>: \<^verbatim>\<open>for (div = 1; div < max_div; div++)\<close>.
\<close>

function determine_rate_divs ::
  "clk_parent \<Rightarrow> nat \<Rightarrow> u32 \<Rightarrow> u32 \<Rightarrow> u32 \<Rightarrow> u32 \<Rightarrow> clk_rate_request \<Rightarrow> u32 \<times> clk_rate_request" where
  "determine_rate_divs parent i req_rate max_div d best_rate req =
     (if d < max_div then
        let parent_rate = mult_frac req_rate d 2;
            parent_rate = round_rate parent parent_rate;
            actual_rate = mult_frac parent_rate 2 d;
            better = is_better_rate req_rate best_rate actual_rate;
            best_rate = (if better then actual_rate else best_rate);
            req = (if better
                   then req\<lparr>rate := best_rate, best_parent_rate := parent_rate,
                            best_parent_hw := Some i\<rparr>
                   else req)
        in if actual_rate < req_rate \<or> best_rate \<le> req_rate then (best_rate, req)
           else determine_rate_divs parent i req_rate max_div (d + 1) best_rate req
      else (best_rate, req))"
  by pat_completeness auto
termination
proof (relation "measure (\<lambda>(parent, i, req_rate, max_div, d, best_rate, req). unat max_div - unat d)")
  show "wf (measure (\<lambda>(parent :: clk_parent, i :: nat, req_rate :: u32, max_div, d, best_rate :: u32,
                        req :: clk_rate_request). unat max_div - unat d))"
    by simp
next
  fix max_div d :: u32
  assume "d < max_div"
  then have lt: "unat d < unat max_div"
    by (simp add: word_less_nat_alt)
  moreover have "unat max_div < 2 ^ 32"
    using unsigned_less [of max_div] by simp
  ultimately have "unat d + unat (1::u32) < 2 ^ LENGTH(32)"
    by simp
  then have "unat (d + 1) = unat d + unat (1::u32)"
    by (simp only: unat_add_lem [THEN iffD1])
  with lt show "\<And>parent i req_rate best_rate req x xa xb xc xd xe.
      ((parent :: clk_parent, i :: nat, req_rate :: u32, max_div, d + 1, xd :: u32, xe :: clk_rate_request),
       (parent, i, req_rate, max_div, d, best_rate :: u32, req))
      \<in> measure (\<lambda>(parent, i, req_rate, max_div, d, best_rate, req). unat max_div - unat d)"
    by simp
qed

text \<open>The equation of the search is unfolded by hand, one divider at a time.\<close>

declare determine_rate_divs.simps [simp del]

text \<open>The outer loop over the parents, \<open>i\<close> the index of the first of \<open>parents\<close>.\<close>

fun determine_rate_parents ::
  "u32 \<Rightarrow> u32 \<Rightarrow> nat \<Rightarrow> clk_parent list \<Rightarrow> u32 \<times> clk_rate_request \<Rightarrow> u32 \<times> clk_rate_request" where
  "determine_rate_parents req_rate max_div i [] st = st"
| "determine_rate_parents req_rate max_div i (parent # parents) st =
     determine_rate_parents req_rate max_div (Suc i) parents
       (determine_rate_divs parent i req_rate max_div 1 (fst st) (snd st))"

definition mux_div_determine_rate ::
  "clk_regmap_mux_div \<Rightarrow> clk_parent list \<Rightarrow> clk_rate_request \<Rightarrow> u32 \<times> clk_rate_request" where
  "mux_div_determine_rate md parents req =
     (let req_rate = rate req;
          max_div = BIT (hid_width md) - 1;
          (best_rate, req) = determine_rate_parents req_rate max_div 0 parents (0, req)
      in if best_rate = 0 then (- EINVAL, req) else (0, req))"

text \<open>
  The rate the body of the search computes for a parent and a divider (its
  \<^verbatim>\<open>actual_rate\<close>), and the rates that are achievable for a request: those of the
  parents at the dividers from 1 to \<open>max_div - 1\<close>.
\<close>

definition candidate_rate :: "clk_parent \<Rightarrow> u32 \<Rightarrow> u32 \<Rightarrow> u32" where
  "candidate_rate parent req_rate d = mult_frac (round_rate parent (mult_frac req_rate d 2)) 2 d"



text \<open>
  The same search in \<^verbatim>\<open>__mux_div_set_rate_and_parent\<close>, which keeps the source
  selector and the register value of the divider, \<^verbatim>\<open>div - 1\<close>, of the best rate.
\<close>

function set_rate_divs ::
  "clk_regmap_mux_div \<Rightarrow> clk_parent \<Rightarrow> nat \<Rightarrow> u32 \<Rightarrow> u32 \<Rightarrow> u32 \<Rightarrow> u32 \<Rightarrow> u32 \<Rightarrow> u32 \<Rightarrow> u32 \<times> u32 \<times> u32" where
  "set_rate_divs md parent i rate' max_div d best_rate best_src best_div =
     (if d < max_div then
        let parent_rate = mult_frac rate' d 2;
            parent_rate = round_rate parent parent_rate;
            actual_rate = mult_frac parent_rate 2 d;
            better = is_better_rate rate' best_rate actual_rate;
            best_rate = (if better then actual_rate else best_rate);
            best_src = (if better then parent_map md i else best_src);
            best_div = (if better then d - 1 else best_div)
        in if actual_rate < rate' \<or> best_rate \<le> rate' then (best_rate, best_src, best_div)
           else set_rate_divs md parent i rate' max_div (d + 1) best_rate best_src best_div
      else (best_rate, best_src, best_div))"
  by pat_completeness auto
termination
proof (relation "measure (\<lambda>(md, parent, i, rate', max_div, d, best_rate, best_src, best_div).
                             unat max_div - unat d)")
  show "wf (measure (\<lambda>(md :: clk_regmap_mux_div, parent :: clk_parent, i :: nat, rate' :: u32,
                        max_div, d, best_rate :: u32, best_src :: u32, best_div :: u32).
                       unat max_div - unat d))"
    by simp
next
  fix max_div d :: u32
  assume "d < max_div"
  then have lt: "unat d < unat max_div"
    by (simp add: word_less_nat_alt)
  moreover have "unat max_div < 2 ^ 32"
    using unsigned_less [of max_div] by simp
  ultimately have "unat d + unat (1::u32) < 2 ^ LENGTH(32)"
    by simp
  then have "unat (d + 1) = unat d + unat (1::u32)"
    by (simp only: unat_add_lem [THEN iffD1])
  with lt show "\<And>md parent i rate' best_rate best_src best_div xd xe xf.
      ((md :: clk_regmap_mux_div, parent :: clk_parent, i :: nat, rate' :: u32, max_div, d + 1,
        xd :: u32, xe :: u32, xf :: u32),
       (md, parent, i, rate', max_div, d, best_rate :: u32, best_src :: u32, best_div :: u32))
      \<in> measure (\<lambda>(md, parent, i, rate', max_div, d, best_rate, best_src, best_div).
                    unat max_div - unat d)"
    by simp
qed

declare set_rate_divs.simps [simp del]

fun set_rate_parents ::
  "clk_regmap_mux_div \<Rightarrow> u32 \<Rightarrow> u32 \<Rightarrow> nat \<Rightarrow> clk_parent list \<Rightarrow> u32 \<times> u32 \<times> u32 \<Rightarrow> u32 \<times> u32 \<times> u32" where
  "set_rate_parents md rate' max_div i [] st = st"
| "set_rate_parents md rate' max_div i (parent # parents) st =
     set_rate_parents md rate' max_div (Suc i) parents
       (set_rate_divs md parent i rate' max_div 1 (fst st) (fst (snd st)) (snd (snd st)))"

text \<open>
  \<^verbatim>\<open>__mux_div_set_rate_and_parent\<close>: the return code, the clock's record after the
  call and the register operations. \<^verbatim>\<open>prate\<close> and \<^verbatim>\<open>src_sel\<close> are not used by
  the source.
\<close>

definition uu_mux_div_set_rate_and_parent ::
  "regmap \<Rightarrow> clk_regmap_mux_div \<Rightarrow> clk_parent list \<Rightarrow> u32 \<Rightarrow> u32 \<Rightarrow> u32 \<Rightarrow> reg_event list
   \<Rightarrow> u32 \<times> clk_regmap_mux_div \<times> reg_event list" where
  "uu_mux_div_set_rate_and_parent rm md parents rate' prate src_sel' tr =
     (let max_div = BIT (hid_width md) - 1;
          (best_rate, best_src, best_div) = set_rate_parents md rate' max_div 0 parents (0, 0, 0);
          (ret, tr) = uu_mux_div_set_src_div rm md best_src best_div tr
      in if ret = 0 then (ret, md\<lparr>md_div := best_div, src_sel := best_src\<rparr>, tr)
         else (ret, md, tr))"

subsection \<open>Reading the rate back\<close>

text \<open>
  \<^verbatim>\<open>mux_div_recalc_rate\<close>. \<open>locals\<close> are the contents of the locals \<^verbatim>\<open>src\<close> and
  \<^verbatim>\<open>div\<close> when the function is entered (it does not initialise them). The result is
  \<open>None\<close> where the division of \<^verbatim>\<open>mult_frac\<close> is by zero.
\<close>

definition mux_div_recalc_rate ::
  "regmap \<Rightarrow> clk_regmap_mux_div \<Rightarrow> clk_parent list \<Rightarrow> u32 \<Rightarrow> u32 \<times> u32 \<Rightarrow> reg_event list
   \<Rightarrow> u32 option \<times> reg_event list" where
  "mux_div_recalc_rate rm md parents prate locals tr =
     (let num_parents = length parents;
          ((src, d), tr) = uu_mux_div_get_src_div rm md locals tr
      in case find (\<lambda>i. src = parent_map md i) [0..<num_parents] of
           Some i \<Rightarrow>
             let p = parents ! i;
                 parent_rate = get_rate p
             in (if d + 1 = 0 then None else Some (mult_frac parent_rate 2 (d + 1)), tr)
         | None \<Rightarrow> (Some 0, tr @ [Pr_err ''Can't find parent'']))"

section \<open>Concrete environments\<close>

text \<open>A secure world that completes every call at once: the trap returns 0 and the
  response header reads as complete, with the response buffer right after it.\<close>

definition fw_complete :: "u8 list \<Rightarrow> nat \<Rightarrow> u8 list" where
  "fw_complete cmd k =
     (let rsp = unat (get_le32 cmd cmd_resp_hdr_offset_off)
      in put_le32 (rsp + rsp_is_complete_off) 1
           (put_le32 (rsp + rsp_buf_offset_off) (of_nat sizeof_qcom_scm_response) cmd))"

definition env_ok :: scm_env where
  "env_ok = \<lparr>PAGE_SHIFT = 12, kzalloc = (\<lambda>sz. True), qcom_scm_remap_error = (\<lambda>e. - EINVAL),
             smc_insn = (\<lambda>cmd n. 0), shared_mem = fw_complete\<rparr>"

text \<open>A secure world that is interrupted twice and then fails with
  \<^verbatim>\<open>QCOM_SCM_EINVAL_ADDR\<close> (-3).\<close>

definition env_fail :: scm_env where
  "env_fail = \<lparr>PAGE_SHIFT = 12, kzalloc = (\<lambda>sz. True), qcom_scm_remap_error = (\<lambda>e. - EINVAL),
               smc_insn = (\<lambda>cmd n. if n < 2 then QCOM_SCM_INTERRUPTED else - 3),
               shared_mem = (\<lambda>cmd k. cmd)\<rparr>"

text \<open>A parent that gives any rate exactly, and a parent of fixed rate.\<close>

definition exact_parent :: clk_parent where
  "exact_parent = \<lparr>get_rate = 0, round_rate = (\<lambda>r. r)\<rparr>"

definition fixed_parent :: "u32 \<Rightarrow> clk_parent" where
  "fixed_parent f = \<lparr>get_rate = f, round_rate = (\<lambda>r. f)\<rparr>"

definition md5 :: clk_regmap_mux_div where
  "md5 = \<lparr>reg_offset = 0, hid_width = 5, hid_shift = 0, src_width = 3, src_shift = 8,
          md_div = 0, src_sel = 0, parent_map = (\<lambda>i. of_nat i)\<rparr>"

definition md2 :: clk_regmap_mux_div where
  "md2 = \<lparr>reg_offset = 0, hid_width = 2, hid_shift = 0, src_width = 3, src_shift = 8,
          md_div = 0, src_sel = 0, parent_map = (\<lambda>i. of_nat i)\<rparr>"

definition req_of :: "u32 \<Rightarrow> clk_rate_request" where
  "req_of r = \<lparr>rate = r, best_parent_rate = 0, best_parent_hw = None\<rparr>"

text \<open>Register maps: one whose update bit never clears, one whose command register
  reads with the dirty bit set, one at rest with the given configuration register.\<close>

definition rm_stuck :: regmap where
  "rm_stuck = \<lparr>regmap_update_bits = (\<lambda>tr reg mask val. 0), regmap_read = (\<lambda>tr reg. (0, 1))\<rparr>"

definition rm_dirty :: regmap where
  "rm_dirty = \<lparr>regmap_update_bits = (\<lambda>tr reg mask val. 0), regmap_read = (\<lambda>tr reg. (0, 16))\<rparr>"

definition rm_idle :: "u32 \<Rightarrow> regmap" where
  "rm_idle cfg = \<lparr>regmap_update_bits = (\<lambda>tr reg mask val. 0),
                  regmap_read = (\<lambda>tr reg. (0, if reg = CFG_RCGR then cfg else 0))\<rparr>"

section \<open>Facts about the wire format\<close>

lemma length_cpu_to_le32 [simp]: "length (cpu_to_le32 v) = 4"
  by (simp add: cpu_to_le32_def)

lemma le32_to_cpu_cpu_to_le32 [simp]: "le32_to_cpu (cpu_to_le32 v) = v"
  unfolding le32_to_cpu_def cpu_to_le32_def
  apply simp
  apply (rule bit_word_eqI)
  apply (auto simp: bit_simps not_less)
  subgoal for n by (cases "n < 24") auto
  done

lemma length_store [simp]:
  "off + length src \<le> length mem \<Longrightarrow> length (store off src mem) = length mem"
  by (simp add: store_def)

lemma load_store_same [simp]:
  "off \<le> length mem \<Longrightarrow> load off (length src) (store off src mem) = src"
  by (simp add: load_def store_def)

lemma load_store_below:
  assumes "off' + n \<le> off" and "off \<le> length mem"
  shows "load off' n (store off src mem) = load off' n mem"
proof -
  have "take n (drop off' (take off mem)) = take n (take (off - off') (drop off' mem))"
    by (simp add: drop_take)
  also have "\<dots> = take n (drop off' mem)"
    using assms by (simp add: min_def)
  finally show ?thesis
    using assms by (simp add: load_def store_def)
qed

lemma load_store_above:
  "off + length src \<le> off' \<Longrightarrow> off + length src \<le> length mem \<Longrightarrow>
   load off' n (store off src mem) = load off' n mem"
proof -
  assume a: "off + length src \<le> off'" and b: "off + length src \<le> length mem"
  have "drop off' (take off mem @ src @ drop (off + length src) mem)
        = drop (off' - off - length src) (drop (off + length src) mem)"
    using a b by simp
  also have "\<dots> = drop off' mem"
    using a by simp
  finally show ?thesis
    by (simp add: load_def store_def)
qed

lemma get_put_le32_same [simp]:
  "off \<le> length mem \<Longrightarrow> get_le32 (put_le32 off v mem) off = v"
  using load_store_same [of off mem "cpu_to_le32 v"]
  by (simp add: get_le32_def put_le32_def)

lemma length_put_le32 [simp]:
  "off + 4 \<le> length mem \<Longrightarrow> length (put_le32 off v mem) = length mem"
  by (simp add: put_le32_def)

lemma get_put_le32_below:
  "off' + 4 \<le> off \<Longrightarrow> off \<le> length mem \<Longrightarrow> get_le32 (put_le32 off v mem) off' = get_le32 mem off'"
  by (simp add: get_le32_def put_le32_def load_store_below)

lemma get_put_le32_above:
  "off + 4 \<le> off' \<Longrightarrow> off + 4 \<le> length mem \<Longrightarrow> get_le32 (put_le32 off v mem) off' = get_le32 mem off'"
  by (simp add: get_le32_def put_le32_def load_store_above)

lemma get_le32_replicate_0 [simp]: "get_le32 (replicate n 0) off = 0"
proof -
  have "foldr (\<lambda>b acc. ucast b OR push_bit 8 acc) (replicate m (0::u8)) (0::u32) = 0" for m
    by (induction m) simp_all
  then show ?thesis
    by (simp add: get_le32_def le32_to_cpu_def load_def)
qed

section \<open>Facts about the allocator\<close>

lemma push_bit_1_minus_1: "push_bit ps (1::u32) - 1 = mask ps"
  by (simp add: mask_eq_exp_minus_1 push_bit_eq_mult)

lemma and_not_mask_push: "(y::u32) AND NOT (mask n) = push_bit n (drop_bit n y)"
  by (rule bit_word_eqI) (auto simp: bit_simps)

lemma and_not_mask_minus: "(y::u32) AND NOT (mask n) = y - take_bit n y"
  using bits_ident [of n y] by (simp add: and_not_mask_push algebra_simps)

lemma unat_and_not_mask: "unat ((y::u32) AND NOT (mask n)) = unat y - unat y mod 2 ^ n"
proof -
  have "take_bit n y \<le> y"
    by (simp add: take_bit_eq_mask word_and_le2)
  then have "unat (y - take_bit n y) = unat y - unat (take_bit n y)"
    by (rule unat_sub)
  moreover have "unat (take_bit n y) = unat y mod 2 ^ n"
    by (metis take_bit_eq_mod unsigned_take_bit_eq)
  ultimately show ?thesis
    by (simp only: and_not_mask_minus)
qed

lemma PAGE_ALIGN_dvd: "2 ^ ps dvd unat (PAGE_ALIGN ps x)"
  unfolding PAGE_ALIGN_def push_bit_1_minus_1 unat_and_not_mask
  by (rule dvd_minus_mod)

lemma PAGE_ALIGN_ge:
  assumes "unat x + 2 ^ ps \<le> 2 ^ 32"
  shows "unat x \<le> unat (PAGE_ALIGN ps x)"
proof -
  have ps: "ps \<le> 32"
  proof (rule ccontr)
    assume "\<not> ps \<le> 32"
    then have "(2::nat) ^ 32 < 2 ^ ps"
      by (intro power_strict_increasing) simp_all
    with assms show False by simp
  qed
  have "uint (mask ps :: u32) = 2 ^ ps - 1"
    using ps by (simp only: uint_mask_eq) (simp add: min_def mask_eq_exp_minus_1)
  then have "unat (mask ps :: u32) = nat (2 ^ ps - 1)"
    by (metis nat_uint_eq)
  then have m: "unat (mask ps :: u32) = 2 ^ ps - 1"
    by (simp add: nat_diff_distrib nat_power_eq)
  have "unat x + unat (mask ps :: u32) < 2 ^ LENGTH(32)"
    using assms m by simp
  then have s: "unat (x + mask ps) = unat x + (2 ^ ps - 1)"
    using m by (simp add: unat_add_lem [THEN iffD1])
  have "(unat x + (2 ^ ps - 1)) mod 2 ^ ps < 2 ^ ps"
    by simp
  then have "unat x \<le> unat x + (2 ^ ps - 1) - (unat x + (2 ^ ps - 1)) mod 2 ^ ps"
    by linarith
  then show ?thesis
    unfolding PAGE_ALIGN_def push_bit_1_minus_1 unat_and_not_mask s .
qed

lemma alloc_CmdD:
  assumes "alloc_qcom_scm_command env c r = Cmd mem"
  shows "length mem = unat (PAGE_ALIGN (PAGE_SHIFT env) (alloc_len c r))"
    and "16 \<le> length mem"
    and "get_le32 mem 0 = alloc_len c r"
    and "get_le32 mem 4 = 16"
    and "get_le32 mem 8 = 16 + c"
    and "12 \<le> off \<Longrightarrow> get_le32 mem off = 0"
proof -
  define sz where "sz = unat (PAGE_ALIGN (PAGE_SHIFT env) (alloc_len c r))"
  define m0 where "m0 = put_le32 0 (alloc_len c r) (replicate sz 0)"
  define m1 where "m1 = put_le32 4 16 m0"
  have sz: "16 \<le> sz" and mem: "mem = put_le32 8 (16 + c) m1"
    using assms
    by (auto simp: alloc_qcom_scm_command_def Let_def sz_def m0_def m1_def split: if_splits)
  have l0: "length m0 = sz" using sz by (simp add: m0_def)
  have l1: "length m1 = sz" using sz l0 by (simp add: m1_def)
  show "length mem = unat (PAGE_ALIGN (PAGE_SHIFT env) (alloc_len c r))"
    using sz l1 by (simp add: mem sz_def)
  show "16 \<le> length mem"
    using sz l1 by (simp add: mem)
  show "get_le32 mem 8 = 16 + c"
    using sz l1 by (simp add: mem)
  have "get_le32 mem 4 = get_le32 m1 4"
    using sz l1 by (simp add: mem get_put_le32_below)
  then show "get_le32 mem 4 = 16"
    using sz l0 by (simp add: m1_def)
  have "get_le32 mem 0 = get_le32 m1 0"
    using sz l1 by (simp add: mem get_put_le32_below)
  also have "\<dots> = get_le32 m0 0"
    using sz l0 by (simp add: m1_def get_put_le32_below)
  finally show "get_le32 mem 0 = alloc_len c r"
    by (simp add: m0_def)
  show "get_le32 mem off = 0" if "12 \<le> off"
  proof -
    have "get_le32 mem off = get_le32 m1 off"
      using sz l1 that by (simp add: mem get_put_le32_above)
    also have "\<dots> = get_le32 m0 off"
      using sz l0 that by (simp add: m1_def get_put_le32_above)
    also have "\<dots> = 0"
      using sz that by (simp add: m0_def get_put_le32_above)
    finally show ?thesis .
  qed
qed

lemma alloc_env_ok: "alloc_qcom_scm_command env_ok 4 4 \<noteq> Null \<and> alloc_qcom_scm_command env_ok 4 4 \<noteq> Undefined_alloc"
  by (simp add: alloc_qcom_scm_command_def env_ok_def alloc_len_def PAGE_ALIGN_def Let_def)


lemma alloc_len_unat:
  "16 + 12 + unat c + unat r < 2 ^ 32 \<Longrightarrow> unat (alloc_len c r) = 16 + 12 + unat c + unat r"
  by (simp add: alloc_len_def unat_word_ariths)

section \<open>Claims about the command-buffer allocator\<close>

text \<open>
  C3. For command and response payload sizes that are valid, that is, whose sum with
  the two headers and one page does not exceed the 32-bit range of \<^verbatim>\<open>size_t\<close>, the
  block the allocator obtains is at least as long as both headers and both payloads
  together, and its length is a multiple of the page size. The \<open>len\<close> field of the
  header records the exact sum.
\<close>

theorem alloc_length_covers_and_page_aligned:
  assumes "sizeof_qcom_scm_command + sizeof_qcom_scm_response + unat cmd_size + unat resp_size
             + 2 ^ PAGE_SHIFT env \<le> 2 ^ 32"
    and "alloc_qcom_scm_command env cmd_size resp_size = Cmd cmd"
  shows "sizeof_qcom_scm_command + sizeof_qcom_scm_response + unat cmd_size + unat resp_size
           \<le> length cmd
         \<and> 2 ^ PAGE_SHIFT env dvd length cmd
         \<and> unat (get_le32 cmd cmd_len_off)
             = sizeof_qcom_scm_command + sizeof_qcom_scm_response + unat cmd_size + unat resp_size"
proof -
  have "0 < (2::nat) ^ PAGE_SHIFT env"
    by simp
  with assms(1) have "16 + 12 + unat cmd_size + unat resp_size < 2 ^ 32"
    by linarith
  then have len: "unat (alloc_len cmd_size resp_size) = 16 + 12 + unat cmd_size + unat resp_size"
    by (rule alloc_len_unat)
  with assms(1) have "unat (alloc_len cmd_size resp_size) + 2 ^ PAGE_SHIFT env \<le> 2 ^ 32"
    by simp
  then have "unat (alloc_len cmd_size resp_size)
               \<le> unat (PAGE_ALIGN (PAGE_SHIFT env) (alloc_len cmd_size resp_size))"
    by (rule PAGE_ALIGN_ge)
  then show ?thesis
    using alloc_CmdD(1,3) [OF assms(2)] len PAGE_ALIGN_dvd [of "PAGE_SHIFT env"] by simp
qed

lemma alloc_env_ok_Cmd:
  "alloc_qcom_scm_command env_ok 4 4 = Cmd (the_cmd (alloc_qcom_scm_command env_ok 4 4))"
  using alloc_env_ok by (cases "alloc_qcom_scm_command env_ok 4 4") simp_all

text \<open>Witness for C3: payloads of 4 and 4 bytes with pages of 4096 bytes.\<close>

theorem alloc_length_covers_and_page_aligned_witness:
  "36 \<le> length (the_cmd (alloc_qcom_scm_command env_ok 4 4))
   \<and> 4096 dvd length (the_cmd (alloc_qcom_scm_command env_ok 4 4))
   \<and> unat (get_le32 (the_cmd (alloc_qcom_scm_command env_ok 4 4)) cmd_len_off) = 36"
proof -
  have "sizeof_qcom_scm_command + sizeof_qcom_scm_response + unat (4::u32) + unat (4::u32)
          + 2 ^ PAGE_SHIFT env_ok \<le> 2 ^ 32"
    by (simp add: env_ok_def)
  from alloc_length_covers_and_page_aligned [OF this alloc_env_ok_Cmd]
  show ?thesis by (simp add: env_ok_def)
qed

lemma alloc_zero_bytes:
  assumes "alloc_qcom_scm_command env c r = Cmd mem"
    and "12 \<le> off" and "off + n \<le> length mem"
  shows "load off n mem = replicate n 0"
proof -
  define sz where "sz = unat (PAGE_ALIGN (PAGE_SHIFT env) (alloc_len c r))"
  define m0 where "m0 = put_le32 0 (alloc_len c r) (replicate sz 0)"
  define m1 where "m1 = put_le32 4 16 m0"
  have sz: "16 \<le> sz" and mem: "mem = put_le32 8 (16 + c) m1"
    using assms(1)
    by (auto simp: alloc_qcom_scm_command_def Let_def sz_def m0_def m1_def split: if_splits)
  have l0: "length m0 = sz" using sz by (simp add: m0_def)
  have l1: "length m1 = sz" using sz l0 by (simp add: m1_def)
  have l: "length mem = sz" using sz l1 by (simp add: mem)
  have "load off n mem = load off n m1"
    using sz l1 assms(2) by (simp add: mem put_le32_def load_store_above)
  also have "\<dots> = load off n m0"
    using sz l0 assms(2) by (simp add: m1_def put_le32_def load_store_above)
  also have "\<dots> = load off n (replicate sz 0)"
    using sz assms(2) by (simp add: m0_def put_le32_def load_store_above)
  also have "\<dots> = replicate n 0"
    using assms(3) l by (simp add: load_def min_def)
  finally show ?thesis .
qed

lemma alloc_block_covers:
  assumes "16 + 12 + unat c + unat r + 2 ^ PAGE_SHIFT env \<le> 2 ^ 32"
    and "alloc_qcom_scm_command env c r = Cmd mem"
  shows "16 + 12 + unat c + unat r \<le> length mem"
proof -
  have "0 < (2::nat) ^ PAGE_SHIFT env"
    by simp
  with assms(1) have "16 + 12 + unat c + unat r < 2 ^ 32"
    by linarith
  then have len: "unat (alloc_len c r) = 16 + 12 + unat c + unat r"
    by (rule alloc_len_unat)
  with assms(1) have "unat (alloc_len c r) + 2 ^ PAGE_SHIFT env \<le> 2 ^ 32"
    by simp
  then have "unat (alloc_len c r) \<le> unat (PAGE_ALIGN (PAGE_SHIFT env) (alloc_len c r))"
    by (rule PAGE_ALIGN_ge)
  then show ?thesis
    using alloc_CmdD(1) [OF assms(2)] len by simp
qed

text \<open>
  C2, as amended. Whenever the allocator returns a buffer, the offsets it records
  satisfy \<open>buf_offset = 16\<close> and \<open>resp_hdr_offset = buf_offset + cmd_len\<close> in 32-bit
  arithmetic. It writes nothing into the response header: whenever the response
  header lies inside the block, which it does for all valid sizes, the header starts
  at \<open>16 + cmd_len\<close> and its twelve bytes are zero, so its \<open>buf_offset\<close> reads 0 and
  the response buffer reached through the fresh header is the header's own address.
\<close>

theorem alloc_offsets:
  assumes "alloc_qcom_scm_command env cmd_size resp_size = Cmd cmd"
  shows "get_le32 cmd cmd_buf_offset_off = of_nat cmd_buf_off
         \<and> get_le32 cmd cmd_resp_hdr_offset_off = get_le32 cmd cmd_buf_offset_off + cmd_size
         \<and> (cmd_buf_off + unat cmd_size + sizeof_qcom_scm_response \<le> length cmd \<longrightarrow>
              unat (qcom_scm_command_to_response cmd) = cmd_buf_off + unat cmd_size
              \<and> load (unat (qcom_scm_command_to_response cmd)) sizeof_qcom_scm_response cmd
                  = replicate sizeof_qcom_scm_response 0
              \<and> get_le32 cmd (unat (qcom_scm_command_to_response cmd) + rsp_len_off) = 0
              \<and> get_le32 cmd (unat (qcom_scm_command_to_response cmd) + rsp_buf_offset_off) = 0
              \<and> get_le32 cmd (unat (qcom_scm_command_to_response cmd) + rsp_is_complete_off) = 0
              \<and> qcom_scm_get_response_buffer cmd (qcom_scm_command_to_response cmd)
                  = qcom_scm_command_to_response cmd)
         \<and> (sizeof_qcom_scm_command + sizeof_qcom_scm_response + unat cmd_size + unat resp_size
               + 2 ^ PAGE_SHIFT env \<le> 2 ^ 32 \<longrightarrow>
              cmd_buf_off + unat cmd_size + sizeof_qcom_scm_response \<le> length cmd)"
proof -
  note d = alloc_CmdD [OF assms]
  have rsp: "qcom_scm_command_to_response cmd = 16 + cmd_size"
    by (simp add: qcom_scm_command_to_response_def d(5))
  have inside: "unat (qcom_scm_command_to_response cmd) = 16 + unat cmd_size
      \<and> load (unat (qcom_scm_command_to_response cmd)) 12 cmd = replicate 12 0
      \<and> get_le32 cmd (unat (qcom_scm_command_to_response cmd)) = 0
      \<and> get_le32 cmd (unat (qcom_scm_command_to_response cmd) + 4) = 0
      \<and> get_le32 cmd (unat (qcom_scm_command_to_response cmd) + 8) = 0"
    if h: "16 + unat cmd_size + 12 \<le> length cmd"
  proof -
    have "length cmd < 2 ^ 32"
      using unsigned_less [of "PAGE_ALIGN (PAGE_SHIFT env) (alloc_len cmd_size resp_size)"]
      by (simp add: d(1))
    with h have "16 + unat cmd_size < 2 ^ 32"
      by simp
    then have u: "unat (16 + cmd_size) = 16 + unat cmd_size"
      by (simp add: unat_word_ariths)
    have z: "load (16 + unat cmd_size + off) n cmd = replicate n 0" if "off + n \<le> 12" for off n
      using assms that h by (intro alloc_zero_bytes) simp_all
    have g: "get_le32 cmd (16 + unat cmd_size + off) = 0" if "off + 4 \<le> 12" for off
    proof -
      have "le32_to_cpu (replicate 4 0) = 0"
        by (simp add: le32_to_cpu_def numeral_eq_Suc)
      then show ?thesis
        using z [of off 4] that by (simp add: get_le32_def)
    qed
    show ?thesis
      using z [of 0 12] g [of 0] g [of 4] g [of 8] by (simp add: rsp u)
  qed
  have covers: "16 + unat cmd_size + 12 \<le> length cmd"
    if "16 + 12 + unat cmd_size + unat resp_size + 2 ^ PAGE_SHIFT env \<le> 2 ^ 32"
    using alloc_block_covers [OF that assms] by simp
  show ?thesis
  proof (intro conjI impI)
    show "get_le32 cmd cmd_buf_offset_off = of_nat cmd_buf_off"
      by (simp add: d(4))
    show "get_le32 cmd cmd_resp_hdr_offset_off = get_le32 cmd cmd_buf_offset_off + cmd_size"
      by (simp add: d(4,5))
  next
    assume h: "cmd_buf_off + unat cmd_size + sizeof_qcom_scm_response \<le> length cmd"
    note i = inside [OF h]
    show "unat (qcom_scm_command_to_response cmd) = cmd_buf_off + unat cmd_size"
      using i by auto
    show "load (unat (qcom_scm_command_to_response cmd)) sizeof_qcom_scm_response cmd
            = replicate sizeof_qcom_scm_response 0"
      using i by auto
    show "get_le32 cmd (unat (qcom_scm_command_to_response cmd) + rsp_len_off) = 0"
      using i by auto
    show "get_le32 cmd (unat (qcom_scm_command_to_response cmd) + rsp_buf_offset_off) = 0"
      using i by auto
    show "get_le32 cmd (unat (qcom_scm_command_to_response cmd) + rsp_is_complete_off) = 0"
      using i by auto
    show "qcom_scm_get_response_buffer cmd (qcom_scm_command_to_response cmd)
            = qcom_scm_command_to_response cmd"
      using i by (auto simp: qcom_scm_get_response_buffer_def)
  next
    assume "sizeof_qcom_scm_command + sizeof_qcom_scm_response + unat cmd_size + unat resp_size
               + 2 ^ PAGE_SHIFT env \<le> 2 ^ 32"
    then show "cmd_buf_off + unat cmd_size + sizeof_qcom_scm_response \<le> length cmd"
      using covers by simp
  qed
qed

text \<open>Witness for C2: payloads of 4 and 4 bytes with pages of 4096 bytes.\<close>

theorem alloc_offsets_witness:
  "get_le32 (the_cmd (alloc_qcom_scm_command env_ok 4 4)) cmd_resp_hdr_offset_off = 20
   \<and> load 20 12 (the_cmd (alloc_qcom_scm_command env_ok 4 4)) = replicate 12 0
   \<and> qcom_scm_get_response_buffer (the_cmd (alloc_qcom_scm_command env_ok 4 4)) 20 = 20"
proof -
  have "sizeof_qcom_scm_command + sizeof_qcom_scm_response + unat (4::u32) + unat (4::u32)
          + 2 ^ PAGE_SHIFT env_ok \<le> 2 ^ 32"
    by (simp add: env_ok_def)
  with alloc_offsets [OF alloc_env_ok_Cmd] show ?thesis
    by (auto simp: qcom_scm_command_to_response_def)
qed

text \<open>
  Counterexample to C2 as stated: for payloads of 4 and 4 bytes the allocator returns
  a buffer whose response header, which lies inside the block, has a \<open>buf_offset\<close>
  that is not 12, the offset of the response buffer from the start of the response
  header in the layout.
\<close>

theorem alloc_response_buf_offset_counterexample:
  "alloc_qcom_scm_command env_ok 4 4 = Cmd (the_cmd (alloc_qcom_scm_command env_ok 4 4))
   \<and> unat (qcom_scm_command_to_response (the_cmd (alloc_qcom_scm_command env_ok 4 4)))
        + sizeof_qcom_scm_response \<le> length (the_cmd (alloc_qcom_scm_command env_ok 4 4))
   \<and> get_le32 (the_cmd (alloc_qcom_scm_command env_ok 4 4))
        (unat (qcom_scm_command_to_response (the_cmd (alloc_qcom_scm_command env_ok 4 4)))
           + rsp_buf_offset_off)
      \<noteq> of_nat sizeof_qcom_scm_response"
proof -
  note d = alloc_CmdD [OF alloc_env_ok_Cmd]
  have "qcom_scm_command_to_response (the_cmd (alloc_qcom_scm_command env_ok 4 4)) = 20"
    by (simp add: qcom_scm_command_to_response_def d(5))
  moreover have "length (the_cmd (alloc_qcom_scm_command env_ok 4 4)) = 4096"
    using d(1) by (simp add: env_ok_def alloc_len_def PAGE_ALIGN_def)
  ultimately show ?thesis
    using alloc_env_ok_Cmd by (simp add: d(6))
qed


section \<open>Facts about the secure call\<close>

lemma smc_interrupted:
  "\<forall>i<k. smc_insn env cmd (n + i) = QCOM_SCM_INTERRUPTED \<Longrightarrow>
   smc_insn env cmd (n + k) \<noteq> QCOM_SCM_INTERRUPTED \<Longrightarrow>
   smc env cmd n = Some (smc_insn env cmd (n + k), Suc (n + k))"
proof (induction k arbitrary: n)
  case 0
  then show ?case
    by (subst smc.simps) simp
next
  case (Suc k)
  from Suc.prems(1) have here: "smc_insn env cmd n = QCOM_SCM_INTERRUPTED"
    by (metis add.right_neutral zero_less_Suc)
  have "\<forall>i<k. smc_insn env cmd (Suc n + i) = QCOM_SCM_INTERRUPTED"
    using Suc.prems(1) by (metis Suc_less_eq add_Suc_right add_Suc)
  moreover have "smc_insn env cmd (Suc n + k) \<noteq> QCOM_SCM_INTERRUPTED"
    using Suc.prems(2) by simp
  ultimately have "smc env cmd (Suc n) = Some (smc_insn env cmd (Suc n + k), Suc (Suc n + k))"
    by (rule Suc.IH)
  then show ?case
    using here by (subst smc.simps) simp
qed

lemma smc_returns_not_interrupted:
  assumes "smc env cmd n = Some y"
  shows "\<exists>i. smc_insn env cmd i \<noteq> QCOM_SCM_INTERRUPTED"
  by (rule smc.raw_induct
        [where P = "\<lambda>env cmd n y. \<exists>i. smc_insn env cmd i \<noteq> QCOM_SCM_INTERRUPTED", OF _ assms])
     (auto simp: Let_def split: if_splits)

lemma smc_forever:
  "\<forall>i. smc_insn env cmd i = QCOM_SCM_INTERRUPTED \<Longrightarrow> smc env cmd n = None"
  using smc_returns_not_interrupted [of env cmd n] by (cases "smc env cmd n") auto

lemma uu_qcom_scm_call_events:
  "uu_qcom_scm_call env cmd = Some (ret, trap) \<Longrightarrow> \<exists>n. trap = Secure_flush_area # replicate n (Smc cmd)"
  by (auto simp: uu_qcom_scm_call_def Let_def split: option.splits)

lemma prepare_id:
  assumes "qcom_scm_call_prepare env svc_id cmd_id cmd_buf cmd_len resp_len = Cmd cmd"
  shows "load cmd_id_off 4 cmd = cpu_to_le32 (push_bit 10 svc_id OR cmd_id)"
proof -
  from assms obtain c0 where a: "alloc_qcom_scm_command env cmd_len resp_len = Cmd c0"
    by (auto simp: qcom_scm_call_prepare_def split: alloc_result.splits)
  note d = alloc_CmdD [OF a]
  define c1 where "c1 = put_le32 cmd_id_off (push_bit 10 svc_id OR cmd_id) c0"
  have l1: "length c1 = length c0"
    using d(2) by (simp add: c1_def)
  have id1: "load cmd_id_off 4 c1 = cpu_to_le32 (push_bit 10 svc_id OR cmd_id)"
    using d(2) load_store_same [of 12 c0 "cpu_to_le32 (push_bit 10 svc_id OR cmd_id)"]
    by (simp add: c1_def put_le32_def)
  show ?thesis
  proof (cases cmd_buf)
    case None
    with assms a id1 show ?thesis
      by (auto simp: qcom_scm_call_prepare_def c1_def)
  next
    case (Some src)
    with assms a have cmd: "cmd = store cmd_buf_off (take (unat cmd_len) src) c1"
      by (simp add: qcom_scm_call_prepare_def c1_def Let_def split: if_splits)
    have "load cmd_id_off 4 cmd = load cmd_id_off 4 c1"
      unfolding cmd using d(2) l1 by (intro load_store_below) simp_all
    with id1 show ?thesis by simp
  qed
qed


section \<open>Claims about the secure call\<close>

lemma prepare_env_ok:
  "qcom_scm_call_prepare env_ok 1 2 None 4 4 = Cmd (the_cmd (qcom_scm_call_prepare env_ok 1 2 None 4 4))"
  using alloc_env_ok
  by (cases "alloc_qcom_scm_command env_ok 4 4") (simp_all add: qcom_scm_call_prepare_def)

lemma prepare_env_fail:
  "qcom_scm_call_prepare env_fail 1 2 None 4 4 = Cmd (the_cmd (qcom_scm_call_prepare env_fail 1 2 None 4 4))"
proof -
  have "alloc_qcom_scm_command env_fail 4 4 \<noteq> Null \<and> alloc_qcom_scm_command env_fail 4 4 \<noteq> Undefined_alloc"
    by (simp add: alloc_qcom_scm_command_def env_fail_def alloc_len_def PAGE_ALIGN_def Let_def)
  then show ?thesis
    by (cases "alloc_qcom_scm_command env_fail 4 4") (simp_all add: qcom_scm_call_prepare_def)
qed

text \<open>
  C1. For every service identifier and command identifier, the buffer that
  \<^verbatim>\<open>qcom_scm_call\<close> has built when it takes the lock holds in the \<open>id\<close> field of
  its header the four bytes of \<open>(svc_id << 10) | cmd_id\<close>, least significant first, and
  every trap of the call is issued on this buffer.
\<close>

theorem qcom_scm_call_stores_id:
  assumes "qcom_scm_call_prepare env svc_id cmd_id cmd_buf cmd_len resp_len = Cmd cmd"
  shows "load cmd_id_off 4 cmd = cpu_to_le32 (push_bit 10 svc_id OR cmd_id)
         \<and> get_le32 cmd cmd_id_off = push_bit 10 svc_id OR cmd_id
         \<and> (\<forall>ret resp tr m.
               qcom_scm_call env svc_id cmd_id cmd_buf cmd_len resp_buf resp_len
                 = Some (Return ret resp tr) \<and> Smc m \<in> set tr \<longrightarrow> m = cmd)"
proof -
  have id: "load cmd_id_off 4 cmd = cpu_to_le32 (push_bit 10 svc_id OR cmd_id)"
    using assms by (rule prepare_id)
  then have "get_le32 cmd cmd_id_off = push_bit 10 svc_id OR cmd_id"
    by (simp add: get_le32_def)
  moreover have "m = cmd"
    if "qcom_scm_call env svc_id cmd_id cmd_buf cmd_len resp_buf resp_len = Some (Return ret resp tr)"
      and "Smc m \<in> set tr" for ret resp tr m
  proof -
    from that(1) assms obtain r trap where
      t: "uu_qcom_scm_call env cmd = Some (r, trap)"
      by (auto simp: qcom_scm_call_def Let_def split: option.splits)
    then obtain n where trap: "trap = Secure_flush_area # replicate n (Smc cmd)"
      using uu_qcom_scm_call_events by blast
    from that assms t show ?thesis
      unfolding qcom_scm_call_def Let_def trap
      by (auto split: option.splits if_splits poll_result.splits)
  qed
  ultimately show ?thesis
    using id by blast
qed

text \<open>
  Witness for C1: service 1 and command 2 give the identifier \<open>0x402\<close>, stored as
  the bytes 2, 4, 0, 0.
\<close>

theorem qcom_scm_call_stores_id_witness:
  "load cmd_id_off 4 (the_cmd (qcom_scm_call_prepare env_ok 1 2 None 4 4)) = [2, 4, 0, 0]"
  using qcom_scm_call_stores_id [OF prepare_env_ok]
  by (simp add: cpu_to_le32_def)

text \<open>
  C4. When the secure monitor answers the first \<open>k\<close> traps with the interrupted
  code 1 and the next one with another code, \<^verbatim>\<open>__qcom_scm_call\<close> issues \<open>k + 1\<close>
  traps and returns that code, through \<open>qcom_scm_remap_error\<close> when it is negative
  and unchanged otherwise.
\<close>

theorem trap_retries_and_maps_errors:
  assumes "\<forall>i<k. smc_insn env cmd i = QCOM_SCM_INTERRUPTED"
    and "smc_insn env cmd k \<noteq> QCOM_SCM_INTERRUPTED"
  shows "uu_qcom_scm_call env cmd =
           Some (if sint (smc_insn env cmd k) < 0 then qcom_scm_remap_error env (smc_insn env cmd k)
                 else smc_insn env cmd k,
                 Secure_flush_area # replicate (Suc k) (Smc cmd))"
proof -
  have "smc env cmd 0 = Some (smc_insn env cmd (0 + k), Suc (0 + k))"
    using assms by (intro smc_interrupted) simp_all
  then show ?thesis
    by (simp add: uu_qcom_scm_call_def)
qed

text \<open>
  Witness for C4: two interrupted traps, then \<open>-3\<close>, which the translation maps to
  \<open>-EINVAL\<close>: three traps are issued.
\<close>

theorem trap_retries_and_maps_errors_witness:
  "uu_qcom_scm_call env_fail [] = Some (- EINVAL, [Secure_flush_area, Smc [], Smc [], Smc []])"
proof -
  have "\<forall>i<2. smc_insn env_fail [] i = QCOM_SCM_INTERRUPTED"
    and "smc_insn env_fail [] 2 \<noteq> QCOM_SCM_INTERRUPTED"
    by (simp_all add: env_fail_def)
  from trap_retries_and_maps_errors [OF this] show ?thesis
    by (simp add: env_fail_def numeral_2_eq_2)
qed

text \<open>
  C5. When the trap returns a nonzero code, \<^verbatim>\<open>qcom_scm_call\<close> returns that code
  after freeing the command buffer: after the unlock the only event is the
  \<^verbatim>\<open>kfree\<close>; no cache line is invalidated, the completion flag is not read and the
  caller's response buffer is left as it was.
\<close>

theorem trap_error_releases_buffer:
  assumes "qcom_scm_call_prepare env svc_id cmd_id cmd_buf cmd_len resp_len = Cmd cmd"
    and "uu_qcom_scm_call env cmd = Some (ret, trap)"
    and "ret \<noteq> 0"
  shows "qcom_scm_call env svc_id cmd_id cmd_buf cmd_len resp_buf resp_len =
           Some (Return ret resp_buf
                  (Kzalloc (PAGE_ALIGN (PAGE_SHIFT env) (alloc_len cmd_len resp_len)) #
                   (case cmd_buf of None \<Rightarrow> [] | Some src \<Rightarrow> [Memcpy_cmd]) @
                   Mutex_lock # trap @ [Mutex_unlock, Kfree]))
         \<and> (\<forall>s e. Inv_range s e \<notin> set trap) \<and> Memcpy_resp \<notin> set trap \<and> Kfree \<notin> set trap"
proof -
  from assms(2) obtain n where "trap = Secure_flush_area # replicate n (Smc cmd)"
    using uu_qcom_scm_call_events by blast
  then have "(\<forall>s e. Inv_range s e \<notin> set trap) \<and> Memcpy_resp \<notin> set trap \<and> Kfree \<notin> set trap"
    by auto
  then show ?thesis
    using assms by (simp add: qcom_scm_call_def)
qed

text \<open>
  Witness for C5: the secure world that fails with \<open>-3\<close> after two interrupted
  traps.
\<close>

theorem trap_error_releases_buffer_witness:
  "qcom_scm_call env_fail 1 2 None 4 (Some [0, 0, 0, 0]) 4 =
     Some (Return (- EINVAL) (Some [0, 0, 0, 0])
            ([Kzalloc 4096, Mutex_lock, Secure_flush_area] @
             replicate 3 (Smc (the_cmd (qcom_scm_call_prepare env_fail 1 2 None 4 4))) @
             [Mutex_unlock, Kfree]))"
proof -
  let ?c = "the_cmd (qcom_scm_call_prepare env_fail 1 2 None 4 4)"
  have a: "\<forall>i<2. smc_insn env_fail ?c (0 + i) = QCOM_SCM_INTERRUPTED"
    and b: "smc_insn env_fail ?c (0 + 2) \<noteq> QCOM_SCM_INTERRUPTED"
    by (simp_all add: env_fail_def)
  have "smc env_fail ?c 0 = Some (smc_insn env_fail ?c (0 + 2), Suc (0 + 2))"
    by (rule smc_interrupted [OF a b])
  moreover have "smc_insn env_fail ?c (0 + 2) = - 3"
    and "qcom_scm_remap_error env_fail (- 3) = - EINVAL"
    by (simp_all add: env_fail_def)
  ultimately have "uu_qcom_scm_call env_fail ?c =
               Some (- EINVAL, Secure_flush_area # replicate 3 (Smc ?c))"
    by (simp add: uu_qcom_scm_call_def numeral_3_eq_3)
  from trap_error_releases_buffer [OF prepare_env_fail this, of "Some [0, 0, 0, 0]"]
  show ?thesis
    by (simp add: env_fail_def alloc_len_def PAGE_ALIGN_def)
qed


section \<open>Facts about the rate search\<close>

lemma unat_mask_u32: "n \<le> 32 \<Longrightarrow> unat (mask n :: u32) = 2 ^ n - 1"
proof -
  assume n: "n \<le> 32"
  have "uint (mask n :: u32) = 2 ^ n - 1"
    using n by (simp only: uint_mask_eq) (simp add: min_def mask_eq_exp_minus_1)
  then have "unat (mask n :: u32) = nat (2 ^ n - 1)"
    by (metis nat_uint_eq)
  then show ?thesis
    by (simp add: nat_diff_distrib nat_power_eq)
qed

lemma BIT_minus_1: "BIT w - 1 = mask (unat w)"
  unfolding BIT_def by (rule push_bit_1_minus_1)

lemma unat_max_div: "w < 32 \<Longrightarrow> unat (BIT w - 1) = 2 ^ unat w - 1"
  by (simp add: BIT_minus_1 unat_mask_u32 word_less_nat_alt)

lemma unat_inc: "(d::u32) < m \<Longrightarrow> unat (d + 1) = Suc (unat d)"
proof -
  assume "d < m"
  then have "unat d < unat m"
    by (simp add: word_less_nat_alt)
  moreover have "unat m < 2 ^ 32"
    using unsigned_less [of m] by simp
  ultimately have "unat d + unat (1::u32) < 2 ^ LENGTH(32)"
    by simp
  then have "unat (d + 1) = unat d + unat (1::u32)"
    by (simp only: unat_add_lem [THEN iffD1])
  then show ?thesis by simp
qed

lemma word_le_inc: "(d::u32) < m \<Longrightarrow> d \<le> d' \<longleftrightarrow> d' = d \<or> d + 1 \<le> d'"
  using unat_inc [of d m] by (auto simp: word_le_nat_alt word_less_nat_alt word_unat_eq_iff)

lemma word_one_le_inc: "(d::u32) < m \<Longrightarrow> 1 \<le> d + 1"
  using unat_inc [of d m] by (simp add: word_le_nat_alt)

lemma determine_rate_divs_step:
  "d < max_div \<Longrightarrow>
   determine_rate_divs parent i req_rate max_div d best_rate req =
     (let a = candidate_rate parent req_rate d;
          better = is_better_rate req_rate best_rate a;
          b = (if better then a else best_rate);
          r = (if better then req\<lparr>rate := a,
                   best_parent_rate := round_rate parent (mult_frac req_rate d 2),
                   best_parent_hw := Some i\<rparr> else req)
      in if a < req_rate \<or> b \<le> req_rate then (b, r)
         else determine_rate_divs parent i req_rate max_div (d + 1) b r)"
  by (subst determine_rate_divs.simps) (simp add: Let_def candidate_rate_def)

lemma determine_rate_divs_done:
  "\<not> d < max_div \<Longrightarrow> determine_rate_divs parent i req_rate max_div d best_rate req = (best_rate, req)"
  by (subst determine_rate_divs.simps) simp









lemma determine_rate_divs_invariant:
  assumes step: "\<And>d b r. 1 \<le> d \<Longrightarrow> d < m \<Longrightarrow> P b r \<Longrightarrow> is_better_rate R b (candidate_rate p R d) \<Longrightarrow>
      P (candidate_rate p R d)
        (r\<lparr>rate := candidate_rate p R d, best_parent_rate := round_rate p (mult_frac R d 2),
           best_parent_hw := Some i\<rparr>)"
  shows "1 \<le> d \<Longrightarrow> P b req \<Longrightarrow>
         P (fst (determine_rate_divs p i R m d b req)) (snd (determine_rate_divs p i R m d b req))"
proof (induction "unat m - unat d" arbitrary: d b req rule: less_induct)
  case less
  show ?case
  proof (cases "d < m")
    case False
    with less.prems show ?thesis
      by (simp add: determine_rate_divs_done)
  next
    case True
    define a where "a = candidate_rate p R d"
    define b' where "b' = (if is_better_rate R b a then a else b)"
    define r' where "r' = (if is_better_rate R b a
        then req\<lparr>rate := a, best_parent_rate := round_rate p (mult_frac R d 2), best_parent_hw := Some i\<rparr>
        else req)"
    have eq: "determine_rate_divs p i R m d b req =
                (if a < R \<or> b' \<le> R then (b', r') else determine_rate_divs p i R m (d + 1) b' r')"
      using True by (simp add: determine_rate_divs_step Let_def a_def b'_def r'_def)
    have P': "P b' r'"
      using step [OF less.prems(1) True less.prems(2)] less.prems(2)
      by (simp add: a_def b'_def r'_def)
    show ?thesis
    proof (cases "a < R \<or> b' \<le> R")
      case True
      with P' show ?thesis by (simp add: eq)
    next
      case go: False
      have "unat m - unat (d + 1) < unat m - unat d"
        using True unat_inc [OF True] by (simp add: word_less_nat_alt)
      moreover have "1 \<le> d + 1"
        using True by (rule word_one_le_inc)
      ultimately have "P (fst (determine_rate_divs p i R m (d + 1) b' r'))
                         (snd (determine_rate_divs p i R m (d + 1) b' r'))"
        using P' by (rule less.hyps)
      with go show ?thesis by (simp add: eq)
    qed
  qed
qed

lemma determine_rate_parents_invariant:
  "(\<And>k d b r. k < length ps \<Longrightarrow> 1 \<le> d \<Longrightarrow> d < m \<Longrightarrow> P b r \<Longrightarrow>
       is_better_rate R b (candidate_rate (ps ! k) R d) \<Longrightarrow>
       P (candidate_rate (ps ! k) R d)
         (r\<lparr>rate := candidate_rate (ps ! k) R d,
            best_parent_rate := round_rate (ps ! k) (mult_frac R d 2),
            best_parent_hw := Some (i + k)\<rparr>)) \<Longrightarrow>
   P (fst st) (snd st) \<Longrightarrow>
   P (fst (determine_rate_parents R m i ps st)) (snd (determine_rate_parents R m i ps st))"
proof (induction ps arbitrary: i st)
  case Nil
  then show ?case by simp
next
  case (Cons p ps)
  let ?st = "determine_rate_divs p i R m 1 (fst st) (snd st)"
  have "P (fst ?st) (snd ?st)"
  proof (rule determine_rate_divs_invariant [where P = P])
    fix d b r
    assume "1 \<le> d" "d < m" "P b r" "is_better_rate R b (candidate_rate p R d)"
    then show "P (candidate_rate p R d)
                 (r\<lparr>rate := candidate_rate p R d, best_parent_rate := round_rate p (mult_frac R d 2),
                    best_parent_hw := Some i\<rparr>)"
      using Cons.prems(1) [of 0 d b r] by simp
  qed (use Cons.prems(2) in simp_all)
  moreover have "P (candidate_rate (ps ! k) R d)
         (r\<lparr>rate := candidate_rate (ps ! k) R d,
            best_parent_rate := round_rate (ps ! k) (mult_frac R d 2),
            best_parent_hw := Some (Suc i + k)\<rparr>)"
    if "k < length ps" "1 \<le> d" "d < m" "P b r" "is_better_rate R b (candidate_rate (ps ! k) R d)"
    for k d b r
    using Cons.prems(1) [of "Suc k" d b r] that by simp
  ultimately have "P (fst (determine_rate_parents R m (Suc i) ps ?st))
                     (snd (determine_rate_parents R m (Suc i) ps ?st))"
    by (intro Cons.IH) 
  then show ?case by simp
qed

lemma determine_rate_unfold:
  "mux_div_determine_rate md parents req =
     (if fst (determine_rate_parents (rate req) (BIT (hid_width md) - 1) 0 parents (0, req)) = 0
      then (- EINVAL, snd (determine_rate_parents (rate req) (BIT (hid_width md) - 1) 0 parents (0, req)))
      else (0, snd (determine_rate_parents (rate req) (BIT (hid_width md) - 1) 0 parents (0, req))))"
  by (simp add: mux_div_determine_rate_def Let_def split: prod.splits)




lemma max_div_gt_1: "2 \<le> w \<Longrightarrow> w < 32 \<Longrightarrow> 1 < BIT w - 1"
proof -
  assume w: "2 \<le> w" "w < 32"
  then have "2 \<le> unat w" by (simp add: word_le_nat_alt)
  then have "(2::nat) ^ 2 \<le> 2 ^ unat w"
    by (intro power_increasing) simp_all
  then have "1 < unat (BIT w - 1)"
    using w(2) by (simp add: unat_max_div)
  then show ?thesis by (simp add: word_less_nat_alt)
qed

lemma update_config_poll_clear:
  assumes "fst (regmap_read rm tr (CMD_RCGR + reg_offset md)) = 0"
    and "snd (regmap_read rm tr (CMD_RCGR + reg_offset md)) AND CMD_RCGR_UPDATE = 0"
    and "0 < c"
  shows "update_config_poll rm md c tr = (0, tr @ [Regmap_read (CMD_RCGR + reg_offset md)])"
proof -
  from assms(3) obtain c' where "c = Suc c'"
    by (cases c) simp_all
  then show ?thesis
    using assms(1,2) by (auto simp: Let_def split: prod.splits)
qed


section \<open>Claims about the rate search\<close>






text \<open>
  C7, as amended. For a request of 19200000 Hz, a divider field of 2 to 31 bits and a
  single parent that gives any rate exactly, \<^verbatim>\<open>determine_rate\<close> succeeds with the
  exact rate from divider 1 and asks the parent for 9600000 (the request times 1/2);
  \<^verbatim>\<open>__mux_div_set_rate_and_parent\<close> programs the parent's selector with the divider
  value \<open>div_hw = 0\<close>.
\<close>

theorem determine_rate_19200000:
  assumes "2 \<le> hid_width md" and "hid_width md < 32" and "\<forall>r. round_rate p r = r"
  shows "mux_div_determine_rate md [p] (req\<lparr>rate := 19200000\<rparr>)
           = (0, req\<lparr>rate := 19200000, best_parent_rate := 9600000, best_parent_hw := Some 0\<rparr>)
         \<and> uu_mux_div_set_rate_and_parent rm md [p] 19200000 prate sel tr
           = (let (ret, tr') = uu_mux_div_set_src_div rm md (parent_map md 0) 0 tr
              in if ret = 0 then (ret, md\<lparr>md_div := 0, src_sel := parent_map md 0\<rparr>, tr')
                 else (ret, md, tr'))"
proof -
  have m: "1 < BIT (hid_width md) - 1"
    using assms(1,2) by (rule max_div_gt_1)
  have "determine_rate_divs p 0 19200000 (BIT (hid_width md) - 1) 1 0 (req\<lparr>rate := 19200000\<rparr>)
          = (19200000, req\<lparr>rate := 19200000, best_parent_rate := 9600000, best_parent_hw := Some 0\<rparr>)"
    using m assms(3)
    by (simp add: determine_rate_divs_step candidate_rate_def mult_frac_def is_better_rate_def Let_def)
  then have "mux_div_determine_rate md [p] (req\<lparr>rate := 19200000\<rparr>)
           = (0, req\<lparr>rate := 19200000, best_parent_rate := 9600000, best_parent_hw := Some 0\<rparr>)"
    by (simp add: mux_div_determine_rate_def)
  moreover have "set_rate_divs md p 0 19200000 (BIT (hid_width md) - 1) 1 0 0 0
                   = (19200000, parent_map md 0, 0)"
    using m assms(3)
    by (subst set_rate_divs.simps) (simp add: mult_frac_def is_better_rate_def Let_def)
  then have "uu_mux_div_set_rate_and_parent rm md [p] 19200000 prate sel tr
           = (let (ret, tr') = uu_mux_div_set_src_div rm md (parent_map md 0) 0 tr
              in if ret = 0 then (ret, md\<lparr>md_div := 0, src_sel := parent_map md 0\<rparr>, tr')
                 else (ret, md, tr'))"
    by (simp add: uu_mux_div_set_rate_and_parent_def)
  ultimately show ?thesis by simp
qed

text \<open>
  Witness for C7: a divider field of 5 bits and registers that take the update at
  once.
\<close>

theorem determine_rate_19200000_witness:
  "mux_div_determine_rate md5 [exact_parent] (req_of 19200000)
     = (0, \<lparr>rate = 19200000, best_parent_rate = 9600000, best_parent_hw = Some 0\<rparr>)
   \<and> fst (snd (uu_mux_div_set_rate_and_parent (rm_idle 0) md5 [exact_parent] 19200000 0 0 []))
     = md5\<lparr>md_div := 0, src_sel := 0\<rparr>"
proof -
  have "2 \<le> hid_width md5" "hid_width md5 < 32" "\<forall>r. round_rate exact_parent r = r"
    by (simp_all add: md5_def exact_parent_def)
  from determine_rate_19200000 [OF this, of "req_of 19200000" "rm_idle 0" 0 0 "[]"]
  show ?thesis
    by (simp add: req_of_def uu_mux_div_set_src_div_def uu_mux_div_update_config_def
        update_config_poll_clear rm_idle_def md5_def BIT_def Let_def)
qed

text \<open>
  Counterexample to C7 as stated: the parent rate of the request is 9600000, not
  19200000.
\<close>

theorem determine_rate_19200000_counterexample:
  "best_parent_rate (snd (mux_div_determine_rate md5 [exact_parent] (req_of 19200000))) = 9600000
   \<and> best_parent_rate (snd (mux_div_determine_rate md5 [exact_parent] (req_of 19200000))) \<noteq> 19200000"
  by (simp add: mux_div_determine_rate_def md5_def exact_parent_def req_of_def BIT_def
      determine_rate_divs_step candidate_rate_def mult_frac_def is_better_rate_def Let_def)


section \<open>Claims about the registers\<close>

lemma update_config_poll_Suc:
  "update_config_poll rm md (Suc c) tr =
     (if fst (regmap_read rm tr (CMD_RCGR + reg_offset md)) \<noteq> 0
      then (fst (regmap_read rm tr (CMD_RCGR + reg_offset md)),
            tr @ [Regmap_read (CMD_RCGR + reg_offset md)])
      else if snd (regmap_read rm tr (CMD_RCGR + reg_offset md)) AND CMD_RCGR_UPDATE = 0
      then (0, tr @ [Regmap_read (CMD_RCGR + reg_offset md)])
      else update_config_poll rm md c (tr @ [Regmap_read (CMD_RCGR + reg_offset md), Udelay 1]))"
  by (auto simp: Let_def split: prod.splits)

declare update_config_poll.simps(2) [simp del]

lemma update_config_poll_stuck:
  assumes "\<forall>h. fst (regmap_read rm h (CMD_RCGR + reg_offset md)) = 0 \<and>
               snd (regmap_read rm h (CMD_RCGR + reg_offset md)) AND CMD_RCGR_UPDATE \<noteq> 0"
  shows "update_config_poll rm md c tr =
           (- EBUSY, tr @ concat (replicate c [Regmap_read (CMD_RCGR + reg_offset md), Udelay 1])
                       @ [Pr_err ''RCG did not update its configuration''])"
proof (induction c arbitrary: tr)
  case 0
  show ?case by simp
next
  case (Suc c)
  from assms have "fst (regmap_read rm tr (CMD_RCGR + reg_offset md)) = 0"
    and "snd (regmap_read rm tr (CMD_RCGR + reg_offset md)) AND CMD_RCGR_UPDATE \<noteq> 0"
    by simp_all
  then show ?case
    by (simp add: update_config_poll_Suc Suc.IH)
qed

lemma update_config_poll_shape:
  "(\<exists>j<c. snd (update_config_poll rm md c tr) =
            tr @ concat (replicate j [Regmap_read (CMD_RCGR + reg_offset md), Udelay 1])
               @ [Regmap_read (CMD_RCGR + reg_offset md)])
   \<or> update_config_poll rm md c tr =
        (- EBUSY, tr @ concat (replicate c [Regmap_read (CMD_RCGR + reg_offset md), Udelay 1])
                    @ [Pr_err ''RCG did not update its configuration''])"
proof (induction c arbitrary: tr)
  case 0
  show ?case by simp
next
  case (Suc c)
  let ?r = "CMD_RCGR + reg_offset md"
  show ?case
  proof (cases "fst (regmap_read rm tr ?r) \<noteq> 0 \<or> snd (regmap_read rm tr ?r) AND CMD_RCGR_UPDATE = 0")
    case True
    then have "snd (update_config_poll rm md (Suc c) tr)
                 = tr @ concat (replicate 0 [Regmap_read ?r, Udelay 1]) @ [Regmap_read ?r]"
      by (auto simp: update_config_poll_Suc)
    then show ?thesis by blast
  next
    case False
    then have eq: "update_config_poll rm md (Suc c) tr =
                     update_config_poll rm md c (tr @ [Regmap_read ?r, Udelay 1])"
      by (simp add: update_config_poll_Suc)
    from Suc.IH [of "tr @ [Regmap_read ?r, Udelay 1]"] show ?thesis
    proof
      assume "\<exists>j<c. snd (update_config_poll rm md c (tr @ [Regmap_read ?r, Udelay 1])) =
                (tr @ [Regmap_read ?r, Udelay 1]) @ concat (replicate j [Regmap_read ?r, Udelay 1])
                  @ [Regmap_read ?r]"
      then obtain j where j: "j < c"
        and "snd (update_config_poll rm md c (tr @ [Regmap_read ?r, Udelay 1])) =
                (tr @ [Regmap_read ?r, Udelay 1]) @ concat (replicate j [Regmap_read ?r, Udelay 1])
                  @ [Regmap_read ?r]"
        by blast
      then have "snd (update_config_poll rm md (Suc c) tr) =
               tr @ concat (replicate (Suc j) [Regmap_read ?r, Udelay 1]) @ [Regmap_read ?r]"
        by (simp add: eq)
      moreover from j have "Suc j < Suc c" by simp
      ultimately show ?thesis by blast
    next
      assume "update_config_poll rm md c (tr @ [Regmap_read ?r, Udelay 1]) =
                (- EBUSY, (tr @ [Regmap_read ?r, Udelay 1]) @
                   concat (replicate c [Regmap_read ?r, Udelay 1]) @
                   [Pr_err ''RCG did not update its configuration''])"
      then show ?thesis by (simp add: eq)
    qed
  qed
qed

text \<open>
  C8. After the write that sets the update bit, \<^verbatim>\<open>__mux_div_update_config\<close> does
  nothing but read the command register, at most 500 times, with a delay of one
  microsecond after each read that finds the bit set. When every read finds it set
  (and the register map reports no error), the function returns \<open>-EBUSY\<close> after 500
  reads and the log message, and so does \<^verbatim>\<open>__mux_div_set_src_div\<close>: neither writes
  to a register after the update bit was set, so the bit is left pending.
\<close>

theorem update_config_poll_bounded:
  "(\<exists>ev. snd (uu_mux_div_update_config rm md tr) =
           tr @ Regmap_update_bits (CMD_RCGR + reg_offset md) CMD_RCGR_UPDATE CMD_RCGR_UPDATE # ev
         \<and> (ev = []
            \<or> (\<exists>j<500. ev = concat (replicate j [Regmap_read (CMD_RCGR + reg_offset md), Udelay 1])
                              @ [Regmap_read (CMD_RCGR + reg_offset md)])
            \<or> (ev = concat (replicate 500 [Regmap_read (CMD_RCGR + reg_offset md), Udelay 1])
                       @ [Pr_err ''RCG did not update its configuration'']
                \<and> fst (uu_mux_div_update_config rm md tr) = - EBUSY)))
   \<and> ((\<forall>h reg mask val. regmap_update_bits rm h reg mask val = 0)
       \<and> (\<forall>h. fst (regmap_read rm h (CMD_RCGR + reg_offset md)) = 0 \<and>
               snd (regmap_read rm h (CMD_RCGR + reg_offset md)) AND CMD_RCGR_UPDATE \<noteq> 0)
       \<longrightarrow>
         uu_mux_div_update_config rm md tr =
           (- EBUSY,
            tr @ Regmap_update_bits (CMD_RCGR + reg_offset md) CMD_RCGR_UPDATE CMD_RCGR_UPDATE #
                 concat (replicate 500 [Regmap_read (CMD_RCGR + reg_offset md), Udelay 1]) @
                 [Pr_err ''RCG did not update its configuration''])
         \<and> (\<exists>mask val. uu_mux_div_set_src_div rm md src_sel' src_div tr =
           (- EBUSY,
            tr @ Regmap_update_bits (CFG_RCGR + reg_offset md) mask val #
                 Regmap_update_bits (CMD_RCGR + reg_offset md) CMD_RCGR_UPDATE CMD_RCGR_UPDATE #
                 concat (replicate 500 [Regmap_read (CMD_RCGR + reg_offset md), Udelay 1]) @
                 [Pr_err ''RCG did not update its configuration''])))"
proof (intro conjI impI)
  let ?r = "CMD_RCGR + reg_offset md"
  let ?u = "Regmap_update_bits ?r CMD_RCGR_UPDATE CMD_RCGR_UPDATE"
  show "\<exists>ev. snd (uu_mux_div_update_config rm md tr) = tr @ ?u # ev
         \<and> (ev = []
            \<or> (\<exists>j<500. ev = concat (replicate j [Regmap_read ?r, Udelay 1]) @ [Regmap_read ?r])
            \<or> (ev = concat (replicate 500 [Regmap_read ?r, Udelay 1])
                       @ [Pr_err ''RCG did not update its configuration'']
                \<and> fst (uu_mux_div_update_config rm md tr) = - EBUSY))"
  proof (cases "regmap_update_bits rm tr ?r CMD_RCGR_UPDATE CMD_RCGR_UPDATE = 0")
    case False
    then show ?thesis
      by (simp add: uu_mux_div_update_config_def Let_def)
  next
    case True
    then have eq: "uu_mux_div_update_config rm md tr = update_config_poll rm md 500 (tr @ [?u])"
      by (simp add: uu_mux_div_update_config_def Let_def)
    from update_config_poll_shape [of 500 rm md "tr @ [?u]"] show ?thesis
      by (auto simp: eq)
  qed
next
  assume a: "(\<forall>h reg mask val. regmap_update_bits rm h reg mask val = 0)
       \<and> (\<forall>h. fst (regmap_read rm h (CMD_RCGR + reg_offset md)) = 0 \<and>
               snd (regmap_read rm h (CMD_RCGR + reg_offset md)) AND CMD_RCGR_UPDATE \<noteq> 0)"
  then have stuck: "\<forall>h. fst (regmap_read rm h (CMD_RCGR + reg_offset md)) = 0 \<and>
               snd (regmap_read rm h (CMD_RCGR + reg_offset md)) AND CMD_RCGR_UPDATE \<noteq> 0"
    by simp
  show "uu_mux_div_update_config rm md tr =
           (- EBUSY,
            tr @ Regmap_update_bits (CMD_RCGR + reg_offset md) CMD_RCGR_UPDATE CMD_RCGR_UPDATE #
                 concat (replicate 500 [Regmap_read (CMD_RCGR + reg_offset md), Udelay 1]) @
                 [Pr_err ''RCG did not update its configuration''])"
    using a by (simp add: uu_mux_div_update_config_def Let_def update_config_poll_stuck [OF stuck])
  show "\<exists>mask val. uu_mux_div_set_src_div rm md src_sel' src_div tr =
           (- EBUSY,
            tr @ Regmap_update_bits (CFG_RCGR + reg_offset md) mask val #
                 Regmap_update_bits (CMD_RCGR + reg_offset md) CMD_RCGR_UPDATE CMD_RCGR_UPDATE #
                 concat (replicate 500 [Regmap_read (CMD_RCGR + reg_offset md), Udelay 1]) @
                 [Pr_err ''RCG did not update its configuration''])"
    using a
    by (simp add: uu_mux_div_set_src_div_def uu_mux_div_update_config_def Let_def
        update_config_poll_stuck [OF stuck])
qed

text \<open>
  Witness for C8: a register map whose update bit never clears.
\<close>

theorem update_config_poll_bounded_witness:
  "uu_mux_div_update_config rm_stuck md5 [] =
     (- EBUSY, Regmap_update_bits 0 1 1 # concat (replicate 500 [Regmap_read 0, Udelay 1]) @
               [Pr_err ''RCG did not update its configuration''])"
proof -
  have "(\<forall>h reg mask val. regmap_update_bits rm_stuck h reg mask val = 0)
       \<and> (\<forall>h. fst (regmap_read rm_stuck h (CMD_RCGR + reg_offset md5)) = 0 \<and>
               snd (regmap_read rm_stuck h (CMD_RCGR + reg_offset md5)) AND CMD_RCGR_UPDATE \<noteq> 0)"
    by (simp add: rm_stuck_def BIT_def)
  with update_config_poll_bounded [of rm_stuck md5 "[]"] show ?thesis
    by (simp add: md5_def BIT_def)
qed


lemma get_src_div_dirty:
  assumes "snd (regmap_read rm tr (CMD_RCGR + reg_offset md)) AND CMD_RCGR_DIRTY_CFG \<noteq> 0"
  shows "uu_mux_div_get_src_div rm md (src0, div0) tr =
           ((src0, div0), tr @ [Regmap_read (CMD_RCGR + reg_offset md),
                                Pr_err ''RCG configuration is pending''])"
  using assms by (auto simp: uu_mux_div_get_src_div_def Let_def split: prod.splits)

lemma recalc_rate_dirty:
  assumes "snd (regmap_read rm tr (CMD_RCGR + reg_offset md)) AND CMD_RCGR_DIRTY_CFG \<noteq> 0"
  shows "mux_div_recalc_rate rm md parents prate (src0, div0) tr =
           (case find (\<lambda>i. src0 = parent_map md i) [0..<length parents] of
              Some i \<Rightarrow>
                (if div0 + 1 = 0 then None else Some (mult_frac (get_rate (parents ! i)) 2 (div0 + 1)),
                 tr @ [Regmap_read (CMD_RCGR + reg_offset md), Pr_err ''RCG configuration is pending''])
            | None \<Rightarrow>
                (Some 0,
                 tr @ [Regmap_read (CMD_RCGR + reg_offset md), Pr_err ''RCG configuration is pending'',
                       Pr_err ''Can't find parent'']))"
  by (simp add: mux_div_recalc_rate_def get_src_div_dirty [OF assms] Let_def split: option.splits)

lemma get_src_div_clean:
  assumes "snd (regmap_read rm tr (CMD_RCGR + reg_offset md)) AND CMD_RCGR_DIRTY_CFG = 0"
  shows "uu_mux_div_get_src_div rm md locals tr =
           ((drop_bit (unat (src_shift md))
               (snd (regmap_read rm (tr @ [Regmap_read (CMD_RCGR + reg_offset md)])
                      (CFG_RCGR + reg_offset md)))
             AND (BIT (src_width md) - 1),
             drop_bit (unat (hid_shift md))
               (snd (regmap_read rm (tr @ [Regmap_read (CMD_RCGR + reg_offset md)])
                      (CFG_RCGR + reg_offset md)))
             AND (BIT (hid_width md) - 1)),
            tr @ [Regmap_read (CMD_RCGR + reg_offset md), Regmap_read (CFG_RCGR + reg_offset md)])"
  using assms
  by (cases locals) (auto simp: uu_mux_div_get_src_div_def Let_def split: prod.splits)

lemma recalc_rate_no_parent:
  assumes "snd (regmap_read rm tr (CMD_RCGR + reg_offset md)) AND CMD_RCGR_DIRTY_CFG = 0"
    and "\<forall>i<length parents.
           drop_bit (unat (src_shift md))
             (snd (regmap_read rm (tr @ [Regmap_read (CMD_RCGR + reg_offset md)])
                    (CFG_RCGR + reg_offset md)))
           AND (BIT (src_width md) - 1) \<noteq> parent_map md i"
  shows "mux_div_recalc_rate rm md parents prate locals tr =
           (Some 0, tr @ [Regmap_read (CMD_RCGR + reg_offset md),
                          Regmap_read (CFG_RCGR + reg_offset md), Pr_err ''Can't find parent''])"
proof -
  let ?src = "drop_bit (unat (src_shift md))
             (snd (regmap_read rm (tr @ [Regmap_read (CMD_RCGR + reg_offset md)])
                    (CFG_RCGR + reg_offset md)))
           AND (BIT (src_width md) - 1)"
  have "find (\<lambda>i. ?src = parent_map md i) [0..<length parents] = None"
    using assms(2) by (simp add: find_None_iff)
  then show ?thesis
    by (simp add: mux_div_recalc_rate_def get_src_div_clean [OF assms(1)] Let_def)
qed

text \<open>
  C9 fails on the code. With the dirty bit set, \<^verbatim>\<open>__mux_div_get_src_div\<close> returns
  before it has written \<^verbatim>\<open>*src_sel\<close> and \<^verbatim>\<open>*src_div\<close>, and
  \<^verbatim>\<open>mux_div_recalc_rate\<close> goes on with what its uninitialised locals held: here both
  held 0, the source 0 is the first parent's, and the result is twice that parent's
  rate instead of 0.
\<close>

theorem recalc_rate_dirty_uninitialised:
  "mux_div_recalc_rate rm_dirty md5 [fixed_parent 19200000] 0 (0, 0) [] =
     (Some 38400000, [Regmap_read 0, Pr_err ''RCG configuration is pending''])"
proof -
  have "snd (regmap_read rm_dirty [] (CMD_RCGR + reg_offset md5)) AND CMD_RCGR_DIRTY_CFG \<noteq> 0"
    by (simp add: rm_dirty_def BIT_def)
  from recalc_rate_dirty [OF this, of "[fixed_parent 19200000]" 0 0 0] show ?thesis
    by (simp add: md5_def fixed_parent_def mult_frac_def)
qed


section \<open>Claims about the range of the dividers\<close>

lemma set_rate_divs_step:
  "d < max_div \<Longrightarrow>
   set_rate_divs md parent i R max_div d best_rate best_src best_div =
     (let a = candidate_rate parent R d;
          better = is_better_rate R best_rate a;
          b = (if better then a else best_rate);
          s = (if better then parent_map md i else best_src);
          v = (if better then d - 1 else best_div)
      in if a < R \<or> b \<le> R then (b, s, v)
         else set_rate_divs md parent i R max_div (d + 1) b s v)"
  by (subst set_rate_divs.simps) (simp add: Let_def candidate_rate_def)

lemma set_rate_divs_done:
  "\<not> d < max_div \<Longrightarrow>
   set_rate_divs md parent i R max_div d best_rate best_src best_div = (best_rate, best_src, best_div)"
  by (subst set_rate_divs.simps) simp

lemma set_rate_divs_invariant:
  assumes step: "\<And>d b s v. 1 \<le> d \<Longrightarrow> d < m \<Longrightarrow> P (b, s, v) \<Longrightarrow>
      is_better_rate R b (candidate_rate p R d) \<Longrightarrow> P (candidate_rate p R d, parent_map md i, d - 1)"
  shows "1 \<le> d \<Longrightarrow> P (b, s, v) \<Longrightarrow> P (set_rate_divs md p i R m d b s v)"
proof (induction "unat m - unat d" arbitrary: d b s v rule: less_induct)
  case less
  show ?case
  proof (cases "d < m")
    case False
    with less.prems show ?thesis
      by (simp add: set_rate_divs_done)
  next
    case True
    define a where "a = candidate_rate p R d"
    define b' where "b' = (if is_better_rate R b a then a else b)"
    define s' where "s' = (if is_better_rate R b a then parent_map md i else s)"
    define v' where "v' = (if is_better_rate R b a then d - 1 else v)"
    have eq: "set_rate_divs md p i R m d b s v =
                (if a < R \<or> b' \<le> R then (b', s', v') else set_rate_divs md p i R m (d + 1) b' s' v')"
      using True by (simp add: set_rate_divs_step Let_def a_def b'_def s'_def v'_def)
    have P': "P (b', s', v')"
      using step [OF less.prems(1) True less.prems(2)] less.prems(2)
      by (simp add: a_def b'_def s'_def v'_def)
    show ?thesis
    proof (cases "a < R \<or> b' \<le> R")
      case True
      with P' show ?thesis by (simp add: eq)
    next
      case go: False
      have "unat m - unat (d + 1) < unat m - unat d"
        using True unat_inc [OF True] by (simp add: word_less_nat_alt)
      moreover have "1 \<le> d + 1"
        using True by (rule word_one_le_inc)
      ultimately have "P (set_rate_divs md p i R m (d + 1) b' s' v')"
        using P' by (rule less.hyps)
      with go show ?thesis by (simp add: eq)
    qed
  qed
qed

lemma set_rate_parents_invariant:
  "(\<And>k d b s v. k < length ps \<Longrightarrow> 1 \<le> d \<Longrightarrow> d < m \<Longrightarrow> P (b, s, v) \<Longrightarrow>
       is_better_rate R b (candidate_rate (ps ! k) R d) \<Longrightarrow>
       P (candidate_rate (ps ! k) R d, parent_map md (i + k), d - 1)) \<Longrightarrow>
   P st \<Longrightarrow> P (set_rate_parents md R m i ps st)"
proof (induction ps arbitrary: i st)
  case Nil
  then show ?case by simp
next
  case (Cons p ps)
  let ?st = "set_rate_divs md p i R m 1 (fst st) (fst (snd st)) (snd (snd st))"
  have "P ?st"
  proof (rule set_rate_divs_invariant [where P = P])
    fix d b s v
    assume "1 \<le> d" "d < m" "P (b, s, v)" "is_better_rate R b (candidate_rate p R d)"
    then show "P (candidate_rate p R d, parent_map md i, d - 1)"
      using Cons.prems(1) [of 0 d b s v] by simp
  qed (use Cons.prems(2) in simp_all)
  moreover have "P (candidate_rate (ps ! k) R d, parent_map md (Suc i + k), d - 1)"
    if "k < length ps" "1 \<le> d" "d < m" "P (b, s, v)" "is_better_rate R b (candidate_rate (ps ! k) R d)"
    for k d b s v
    using Cons.prems(1) [of "Suc k" d b s v] that by simp
  ultimately have "P (set_rate_parents md R m (Suc i) ps ?st)"
    by (intro Cons.IH)
  then show ?case by simp
qed

lemma determine_rate_provenance:
  "(fst (determine_rate_parents R m 0 parents (0, req)) = 0 \<and>
    snd (determine_rate_parents R m 0 parents (0, req)) = req)
   \<or> (\<exists>k d. k < length parents \<and> 1 \<le> d \<and> d < m \<and>
         snd (determine_rate_parents R m 0 parents (0, req)) =
           req\<lparr>rate := candidate_rate (parents ! k) R d,
               best_parent_rate := round_rate (parents ! k) (mult_frac R d 2),
               best_parent_hw := Some k\<rparr>)"
proof (rule determine_rate_parents_invariant
         [where P = "\<lambda>b r. (b = 0 \<and> r = req) \<or> (\<exists>k d. k < length parents \<and> 1 \<le> d \<and> d < m \<and>
             r = req\<lparr>rate := candidate_rate (parents ! k) R d,
               best_parent_rate := round_rate (parents ! k) (mult_frac R d 2),
               best_parent_hw := Some k\<rparr>)"])
  fix k d b r
  assume k: "k < length parents" and d: "1 \<le> d" "d < m"
    and P: "(b = 0 \<and> r = req) \<or> (\<exists>k d. k < length parents \<and> 1 \<le> d \<and> d < m \<and>
             r = req\<lparr>rate := candidate_rate (parents ! k) R d,
               best_parent_rate := round_rate (parents ! k) (mult_frac R d 2),
               best_parent_hw := Some k\<rparr>)"
  have "r\<lparr>rate := candidate_rate (parents ! k) R d,
          best_parent_rate := round_rate (parents ! k) (mult_frac R d 2),
          best_parent_hw := Some (0 + k)\<rparr>
        = req\<lparr>rate := candidate_rate (parents ! k) R d,
               best_parent_rate := round_rate (parents ! k) (mult_frac R d 2),
               best_parent_hw := Some k\<rparr>"
    using P by auto
  with k d show "(candidate_rate (parents ! k) R d = 0 \<and>
          r\<lparr>rate := candidate_rate (parents ! k) R d,
            best_parent_rate := round_rate (parents ! k) (mult_frac R d 2),
            best_parent_hw := Some (0 + k)\<rparr> = req)
       \<or> (\<exists>k' d'. k' < length parents \<and> 1 \<le> d' \<and> d' < m \<and>
             r\<lparr>rate := candidate_rate (parents ! k) R d,
               best_parent_rate := round_rate (parents ! k) (mult_frac R d 2),
               best_parent_hw := Some (0 + k)\<rparr> =
             req\<lparr>rate := candidate_rate (parents ! k') R d',
               best_parent_rate := round_rate (parents ! k') (mult_frac R d' 2),
               best_parent_hw := Some k'\<rparr>)"
    by blast
qed simp

lemma set_rate_provenance:
  "(fst (snd (set_rate_parents md R m 0 parents (0, 0, 0))) = 0 \<and>
    snd (snd (set_rate_parents md R m 0 parents (0, 0, 0))) = 0)
   \<or> (\<exists>k d. k < length parents \<and> 1 \<le> d \<and> d < m \<and>
         fst (snd (set_rate_parents md R m 0 parents (0, 0, 0))) = parent_map md k \<and>
         snd (snd (set_rate_parents md R m 0 parents (0, 0, 0))) = d - 1)"
proof (rule set_rate_parents_invariant
         [where P = "\<lambda>st. (fst (snd st) = 0 \<and> snd (snd st) = 0) \<or>
            (\<exists>k d. k < length parents \<and> 1 \<le> d \<and> d < m \<and>
               fst (snd st) = parent_map md k \<and> snd (snd st) = d - 1)"])
  fix k d b s v
  assume "k < length parents" "1 \<le> d" "d < m"
  then show "(fst (snd (candidate_rate (parents ! k) R d, parent_map md (0 + k), d - 1)) = 0 \<and>
              snd (snd (candidate_rate (parents ! k) R d, parent_map md (0 + k), d - 1)) = 0)
       \<or> (\<exists>k' d'. k' < length parents \<and> 1 \<le> d' \<and> d' < m \<and>
              fst (snd (candidate_rate (parents ! k) R d, parent_map md (0 + k), d - 1)) = parent_map md k' \<and>
              snd (snd (candidate_rate (parents ! k) R d, parent_map md (0 + k), d - 1)) = d' - 1)"
    by auto
qed simp


lemma determine_rate_divs_cong:
  "\<forall>d'. d \<le> d' \<and> d' < m \<longrightarrow> round_rate p (mult_frac R d' 2) = round_rate p' (mult_frac R d' 2) \<Longrightarrow>
   determine_rate_divs p i R m d b req = determine_rate_divs p' i R m d b req"
proof (induction "unat m - unat d" arbitrary: d b req rule: less_induct)
  case less
  show ?case
  proof (cases "d < m")
    case False
    then show ?thesis by (simp add: determine_rate_divs_done)
  next
    case True
    from less.prems True have here: "round_rate p (mult_frac R d 2) = round_rate p' (mult_frac R d 2)"
      by simp
    have "unat m - unat (d + 1) < unat m - unat d"
      using True unat_inc [OF True] by (simp add: word_less_nat_alt)
    moreover have "\<forall>d'. d + 1 \<le> d' \<and> d' < m \<longrightarrow>
                     round_rate p (mult_frac R d' 2) = round_rate p' (mult_frac R d' 2)"
      using less.prems word_le_inc [OF True] by simp
    ultimately have "determine_rate_divs p i R m (d + 1) b' r' = determine_rate_divs p' i R m (d + 1) b' r'"
      for b' r'
      by (rule less.hyps)
    then show ?thesis
      using True here by (simp add: determine_rate_divs_step candidate_rate_def Let_def)
  qed
qed

lemma determine_rate_parents_cong:
  "length ps' = length ps \<Longrightarrow>
   \<forall>k<length ps. \<forall>d. 1 \<le> d \<and> d < m \<longrightarrow>
      round_rate (ps' ! k) (mult_frac R d 2) = round_rate (ps ! k) (mult_frac R d 2) \<Longrightarrow>
   determine_rate_parents R m i ps' st = determine_rate_parents R m i ps st"
proof (induction ps arbitrary: ps' i st)
  case Nil
  then show ?case by simp
next
  case (Cons p ps)
  from Cons.prems(1) obtain p' qs where ps': "ps' = p' # qs" and len: "length qs = length ps"
    by (cases ps') simp_all
  have "\<forall>d. 1 \<le> d \<and> d < m \<longrightarrow> round_rate p' (mult_frac R d 2) = round_rate p (mult_frac R d 2)"
    using Cons.prems(2) [rule_format, of 0] by (simp add: ps')
  then have here: "determine_rate_divs p' i R m 1 b r = determine_rate_divs p i R m 1 b r" for b r
    by (intro determine_rate_divs_cong) simp
  have "\<forall>k<length ps. \<forall>d. 1 \<le> d \<and> d < m \<longrightarrow>
      round_rate (qs ! k) (mult_frac R d 2) = round_rate (ps ! k) (mult_frac R d 2)"
  proof (intro allI impI)
    fix k d assume "k < length ps" "1 \<le> d \<and> d < m"
    then show "round_rate (qs ! k) (mult_frac R d 2) = round_rate (ps ! k) (mult_frac R d 2)"
      using Cons.prems(2) [rule_format, of "Suc k" d] by (simp add: ps')
  qed
  with len have "determine_rate_parents R m (Suc i) qs st' = determine_rate_parents R m (Suc i) ps st'"
    for st'
    by (rule Cons.IH)
  then show ?case
    by (simp add: ps' here)
qed

lemma set_rate_divs_cong:
  "\<forall>d'. d \<le> d' \<and> d' < m \<longrightarrow> round_rate p (mult_frac R d' 2) = round_rate p' (mult_frac R d' 2) \<Longrightarrow>
   set_rate_divs md p i R m d b s v = set_rate_divs md p' i R m d b s v"
proof (induction "unat m - unat d" arbitrary: d b s v rule: less_induct)
  case less
  show ?case
  proof (cases "d < m")
    case False
    then show ?thesis by (simp add: set_rate_divs_done)
  next
    case True
    from less.prems True have here: "round_rate p (mult_frac R d 2) = round_rate p' (mult_frac R d 2)"
      by simp
    have "unat m - unat (d + 1) < unat m - unat d"
      using True unat_inc [OF True] by (simp add: word_less_nat_alt)
    moreover have "\<forall>d'. d + 1 \<le> d' \<and> d' < m \<longrightarrow>
                     round_rate p (mult_frac R d' 2) = round_rate p' (mult_frac R d' 2)"
      using less.prems word_le_inc [OF True] by simp
    ultimately have "set_rate_divs md p i R m (d + 1) b' s' v' = set_rate_divs md p' i R m (d + 1) b' s' v'"
      for b' s' v'
      by (rule less.hyps)
    then show ?thesis
      using True here by (simp add: set_rate_divs_step candidate_rate_def Let_def)
  qed
qed

lemma set_rate_parents_cong:
  "length ps' = length ps \<Longrightarrow>
   \<forall>k<length ps. \<forall>d. 1 \<le> d \<and> d < m \<longrightarrow>
      round_rate (ps' ! k) (mult_frac R d 2) = round_rate (ps ! k) (mult_frac R d 2) \<Longrightarrow>
   set_rate_parents md R m i ps' st = set_rate_parents md R m i ps st"
proof (induction ps arbitrary: ps' i st)
  case Nil
  then show ?case by simp
next
  case (Cons p ps)
  from Cons.prems(1) obtain p' qs where ps': "ps' = p' # qs" and len: "length qs = length ps"
    by (cases ps') simp_all
  have "\<forall>d. 1 \<le> d \<and> d < m \<longrightarrow> round_rate p' (mult_frac R d 2) = round_rate p (mult_frac R d 2)"
    using Cons.prems(2) [rule_format, of 0] by (simp add: ps')
  then have here: "set_rate_divs md p' i R m 1 b s v = set_rate_divs md p i R m 1 b s v" for b s v
    by (intro set_rate_divs_cong) simp
  have "\<forall>k<length ps. \<forall>d. 1 \<le> d \<and> d < m \<longrightarrow>
      round_rate (qs ! k) (mult_frac R d 2) = round_rate (ps ! k) (mult_frac R d 2)"
  proof (intro allI impI)
    fix k d assume "k < length ps" "1 \<le> d \<and> d < m"
    then show "round_rate (qs ! k) (mult_frac R d 2) = round_rate (ps ! k) (mult_frac R d 2)"
      using Cons.prems(2) [rule_format, of "Suc k" d] by (simp add: ps')
  qed
  with len have "set_rate_parents md R m (Suc i) qs st' = set_rate_parents md R m (Suc i) ps st'"
    for st'
    by (rule Cons.IH)
  then show ?case
    by (simp add: ps' here)
qed

lemma max_div_bound:
  assumes "w < 32"
  shows "d < BIT w - 1 \<longleftrightarrow> unat d + 2 \<le> 2 ^ unat w"
proof -
  have "0 < (2::nat) ^ unat w" by simp
  then show ?thesis
    using unat_max_div [OF assms] by (simp add: word_less_nat_alt) linarith
qed

text \<open>
  C10. Both searches only use the dividers from 1 to \<open>max_div - 1\<close>, which is
  \<open>2 ^ hid_width - 2\<close>: a successful \<^verbatim>\<open>determine_rate\<close> returns the rate and the
  parent rate of such a divider, \<^verbatim>\<open>__mux_div_set_rate_and_parent\<close> programs
  \<open>div - 1\<close> for such a divider (or 0 and 0 when no candidate was better than
  nothing), and neither result changes when the parents round differently at the
  parent rates of any other divider. The divider \<open>2 ^ hid_width - 1\<close> is not among
  them.
\<close>

theorem divider_search_range:
  "(fst (mux_div_determine_rate md parents req) = 0 \<longrightarrow>
      (\<exists>k d. k < length parents \<and> 1 \<le> d \<and> d < BIT (hid_width md) - 1 \<and>
         snd (mux_div_determine_rate md parents req) =
           req\<lparr>rate := candidate_rate (parents ! k) (rate req) d,
               best_parent_rate := round_rate (parents ! k) (mult_frac (rate req) d 2),
               best_parent_hw := Some k\<rparr>))
   \<and> (\<exists>best_src best_div.
         uu_mux_div_set_rate_and_parent rm md parents R prate sel tr =
           (let (ret, tr') = uu_mux_div_set_src_div rm md best_src best_div tr
            in if ret = 0 then (ret, md\<lparr>md_div := best_div, src_sel := best_src\<rparr>, tr')
               else (ret, md, tr'))
         \<and> ((best_src = 0 \<and> best_div = 0)
            \<or> (\<exists>k d. k < length parents \<and> 1 \<le> d \<and> d < BIT (hid_width md) - 1 \<and>
                  best_src = parent_map md k \<and> best_div = d - 1)))
   \<and> (length parents' = length parents
       \<and> (\<forall>k<length parents. \<forall>d. 1 \<le> d \<and> d < BIT (hid_width md) - 1 \<longrightarrow>
              round_rate (parents' ! k) (mult_frac (rate req) d 2)
                = round_rate (parents ! k) (mult_frac (rate req) d 2)) \<longrightarrow>
        mux_div_determine_rate md parents' req = mux_div_determine_rate md parents req)
   \<and> (length parents' = length parents
       \<and> (\<forall>k<length parents. \<forall>d. 1 \<le> d \<and> d < BIT (hid_width md) - 1 \<longrightarrow>
              round_rate (parents' ! k) (mult_frac R d 2) = round_rate (parents ! k) (mult_frac R d 2)) \<longrightarrow>
        uu_mux_div_set_rate_and_parent rm md parents' R prate sel tr
          = uu_mux_div_set_rate_and_parent rm md parents R prate sel tr)
   \<and> (hid_width md < 32 \<longrightarrow>
        (\<forall>d. d < BIT (hid_width md) - 1 \<longleftrightarrow> unat d + 2 \<le> 2 ^ unat (hid_width md)))"
proof (intro conjI impI)
  assume ok: "fst (mux_div_determine_rate md parents req) = 0"
  let ?st = "determine_rate_parents (rate req) (BIT (hid_width md) - 1) 0 parents (0, req)"
  from ok have nz: "fst ?st \<noteq> 0" and res: "snd (mux_div_determine_rate md parents req) = snd ?st"
    by (auto simp: determine_rate_unfold split: if_splits)
  from determine_rate_provenance [of "rate req" "BIT (hid_width md) - 1" parents req] nz res
  show "\<exists>k d. k < length parents \<and> 1 \<le> d \<and> d < BIT (hid_width md) - 1 \<and>
         snd (mux_div_determine_rate md parents req) =
           req\<lparr>rate := candidate_rate (parents ! k) (rate req) d,
               best_parent_rate := round_rate (parents ! k) (mult_frac (rate req) d 2),
               best_parent_hw := Some k\<rparr>"
    by auto
next
  let ?st = "set_rate_parents md R (BIT (hid_width md) - 1) 0 parents (0, 0, 0)"
  have "uu_mux_div_set_rate_and_parent rm md parents R prate sel tr =
           (let (ret, tr') = uu_mux_div_set_src_div rm md (fst (snd ?st)) (snd (snd ?st)) tr
            in if ret = 0 then (ret, md\<lparr>md_div := snd (snd ?st), src_sel := fst (snd ?st)\<rparr>, tr')
               else (ret, md, tr'))"
    by (simp add: uu_mux_div_set_rate_and_parent_def Let_def split: prod.splits)
  with set_rate_provenance [of md R "BIT (hid_width md) - 1" parents]
  show "\<exists>best_src best_div.
         uu_mux_div_set_rate_and_parent rm md parents R prate sel tr =
           (let (ret, tr') = uu_mux_div_set_src_div rm md best_src best_div tr
            in if ret = 0 then (ret, md\<lparr>md_div := best_div, src_sel := best_src\<rparr>, tr')
               else (ret, md, tr'))
         \<and> ((best_src = 0 \<and> best_div = 0)
            \<or> (\<exists>k d. k < length parents \<and> 1 \<le> d \<and> d < BIT (hid_width md) - 1 \<and>
                  best_src = parent_map md k \<and> best_div = d - 1))"
    by blast
next
  assume "length parents' = length parents
       \<and> (\<forall>k<length parents. \<forall>d. 1 \<le> d \<and> d < BIT (hid_width md) - 1 \<longrightarrow>
              round_rate (parents' ! k) (mult_frac (rate req) d 2)
                = round_rate (parents ! k) (mult_frac (rate req) d 2))"
  then have "determine_rate_parents (rate req) (BIT (hid_width md) - 1) 0 parents' (0, req)
               = determine_rate_parents (rate req) (BIT (hid_width md) - 1) 0 parents (0, req)"
    by (intro determine_rate_parents_cong) simp_all
  then show "mux_div_determine_rate md parents' req = mux_div_determine_rate md parents req"
    by (simp add: determine_rate_unfold)
next
  assume "length parents' = length parents
       \<and> (\<forall>k<length parents. \<forall>d. 1 \<le> d \<and> d < BIT (hid_width md) - 1 \<longrightarrow>
              round_rate (parents' ! k) (mult_frac R d 2) = round_rate (parents ! k) (mult_frac R d 2))"
  then have "set_rate_parents md R (BIT (hid_width md) - 1) 0 parents' (0, 0, 0)
               = set_rate_parents md R (BIT (hid_width md) - 1) 0 parents (0, 0, 0)"
    by (intro set_rate_parents_cong) simp_all
  then show "uu_mux_div_set_rate_and_parent rm md parents' R prate sel tr
          = uu_mux_div_set_rate_and_parent rm md parents R prate sel tr"
    by (simp add: uu_mux_div_set_rate_and_parent_def)
next
  assume "hid_width md < 32"
  then show "\<forall>d. d < BIT (hid_width md) - 1 \<longleftrightarrow> unat d + 2 \<le> 2 ^ unat (hid_width md)"
    using max_div_bound by blast
qed

lemma determine_rate_md2_fixed_300:
  "mux_div_determine_rate md2 [fixed_parent 300] (req_of 200)
     = (0, \<lparr>rate = 300, best_parent_rate = 300, best_parent_hw = Some 0\<rparr>)"
  by (simp add: mux_div_determine_rate_def md2_def fixed_parent_def req_of_def BIT_def
      determine_rate_divs_step determine_rate_divs_done candidate_rate_def mult_frac_def
      is_better_rate_def Let_def)

text \<open>
  Witness for C10: with a divider field of 2 bits and a parent fixed at 300, the
  request 200 is answered with 300 from a divider below 3, although the divider 3
  would give exactly 200.
\<close>

theorem divider_search_range_witness:
  "(\<exists>k d. k < length [fixed_parent 300] \<and> 1 \<le> d \<and> unat d + 2 \<le> 2 ^ 2 \<and>
      snd (mux_div_determine_rate md2 [fixed_parent 300] (req_of 200)) =
        (req_of 200)\<lparr>rate := candidate_rate ([fixed_parent 300] ! k) 200 d,
               best_parent_rate := round_rate ([fixed_parent 300] ! k) (mult_frac 200 d 2),
               best_parent_hw := Some k\<rparr>)
   \<and> rate (snd (mux_div_determine_rate md2 [fixed_parent 300] (req_of 200))) = 300
   \<and> candidate_rate (fixed_parent 300) 200 3 = 200"
proof -
  have ok: "fst (mux_div_determine_rate md2 [fixed_parent 300] (req_of 200)) = 0"
    by (simp add: determine_rate_md2_fixed_300)
  have w: "hid_width md2 < 32"
    by (simp add: md2_def)
  from divider_search_range [of md2 "[fixed_parent 300]" "req_of 200"] ok w
  have "\<exists>k d. k < length [fixed_parent 300] \<and> 1 \<le> d \<and> d < BIT (hid_width md2) - 1 \<and>
         snd (mux_div_determine_rate md2 [fixed_parent 300] (req_of 200)) =
           (req_of 200)\<lparr>rate := candidate_rate ([fixed_parent 300] ! k) (rate (req_of 200)) d,
               best_parent_rate := round_rate ([fixed_parent 300] ! k) (mult_frac (rate (req_of 200)) d 2),
               best_parent_hw := Some k\<rparr>"
    and "\<forall>d. d < BIT (hid_width md2) - 1 \<longleftrightarrow> unat d + 2 \<le> 2 ^ unat (hid_width md2)"
    by blast+
  then have "\<exists>k d. k < length [fixed_parent 300] \<and> 1 \<le> d \<and> unat d + 2 \<le> 2 ^ 2 \<and>
      snd (mux_div_determine_rate md2 [fixed_parent 300] (req_of 200)) =
        (req_of 200)\<lparr>rate := candidate_rate ([fixed_parent 300] ! k) 200 d,
               best_parent_rate := round_rate ([fixed_parent 300] ! k) (mult_frac 200 d 2),
               best_parent_hw := Some k\<rparr>"
    by (simp add: md2_def req_of_def)
  moreover have "candidate_rate (fixed_parent 300) 200 3 = 200"
    by (simp add: candidate_rate_def mult_frac_def fixed_parent_def)
  ultimately show ?thesis
    by (simp add: determine_rate_md2_fixed_300)
qed


section \<open>A call that completes\<close>

text \<open>
  The other path of \<^verbatim>\<open>qcom_scm_call\<close>: when the trap returns 0 and the completion
  flag is read as set after \<open>k\<close> invalidations, the call invalidates the whole
  response, copies \<^verbatim>\<open>resp_len\<close> bytes from the offset the response header gives
  and frees the buffer.
\<close>

lemma wait_complete_now:
  "rsp + sizeof_qcom_scm_response \<le> length (view (Suc k)) \<Longrightarrow>
   get_le32 (view (Suc k)) (rsp + rsp_is_complete_off) \<noteq> 0 \<Longrightarrow>
   wait_complete view rsp k = Some (Complete (Suc k))"
  by (subst wait_complete.simps) (simp add: Let_def)

lemma qcom_scm_call_completes:
  assumes "qcom_scm_call_prepare env svc_id cmd_id cmd_buf cmd_len resp_len = Cmd cmd"
    and "uu_qcom_scm_call env cmd = Some (0, trap)"
    and "sizeof_qcom_scm_command \<le> length (shared_mem env cmd 0)"
    and "qcom_scm_command_to_response (shared_mem env cmd 0) = rsp"
    and "wait_complete (shared_mem env cmd) (unat rsp) 0 = Some (Complete k)"
    and "unat rsp + sizeof_qcom_scm_response \<le> length (shared_mem env cmd (Suc k))"
    and "unat (qcom_scm_get_response_buffer (shared_mem env cmd (Suc k)) rsp) + unat resp_len
           \<le> length (shared_mem env cmd (Suc k))"
    and "unat resp_len \<le> length dst"
  shows "qcom_scm_call env svc_id cmd_id cmd_buf cmd_len (Some dst) resp_len =
           Some (Return 0
                  (Some (load (unat (qcom_scm_get_response_buffer (shared_mem env cmd (Suc k)) rsp))
                           (unat resp_len) (shared_mem env cmd (Suc k))
                         @ drop (unat resp_len) dst))
                  (Kzalloc (PAGE_ALIGN (PAGE_SHIFT env) (alloc_len cmd_len resp_len)) #
                   (case cmd_buf of None \<Rightarrow> [] | Some src \<Rightarrow> [Memcpy_cmd]) @
                   Mutex_lock # trap @ Mutex_unlock #
                   replicate k (Inv_range rsp (rsp + of_nat sizeof_qcom_scm_response)) @
                   [Inv_range rsp (qcom_scm_get_response_buffer (shared_mem env cmd k) rsp + resp_len),
                    Memcpy_resp, Kfree]))"
  using assms by (simp add: qcom_scm_call_def Let_def not_less [symmetric])

lemma qcom_scm_call_env_ok:
  "qcom_scm_call env_ok 1 2 None 4 (Some [9, 9, 9, 9]) 4 =
     Some (Return 0
            (Some (load 32 4 (fw_complete (the_cmd (qcom_scm_call_prepare env_ok 1 2 None 4 4)) 2)))
            [Kzalloc 4096, Mutex_lock, Secure_flush_area,
             Smc (the_cmd (qcom_scm_call_prepare env_ok 1 2 None 4 4)), Mutex_unlock,
             Inv_range 20 32, Inv_range 20 36, Memcpy_resp, Kfree])"
proof -
  let ?c0 = "the_cmd (alloc_qcom_scm_command env_ok 4 4)"
  let ?cmd = "the_cmd (qcom_scm_call_prepare env_ok 1 2 None 4 4)"
  note d = alloc_CmdD [OF alloc_env_ok_Cmd]
  have sz: "PAGE_ALIGN (PAGE_SHIFT env_ok) (alloc_len 4 4) = 4096"
    by (simp add: env_ok_def alloc_len_def PAGE_ALIGN_def)
  have l0: "length ?c0 = 4096"
    using d(1) by (simp add: sz)
  have cmd: "?cmd = put_le32 cmd_id_off (push_bit 10 1 OR 2) ?c0"
    using alloc_env_ok_Cmd
    by (cases "alloc_qcom_scm_command env_ok 4 4") (simp_all add: qcom_scm_call_prepare_def)
  have l: "length ?cmd = 4096"
    using l0 by (simp add: cmd)
  have r: "get_le32 ?cmd cmd_resp_hdr_offset_off = 20"
    using l0 d(5) by (simp add: cmd get_put_le32_below)
  have trap: "uu_qcom_scm_call env_ok ?cmd = Some (0, [Secure_flush_area, Smc ?cmd])"
  proof -
    have "smc_insn env_ok ?cmd 0 = 0"
      by (simp add: env_ok_def)
    then have "smc env_ok ?cmd 0 = Some (0, Suc 0)"
      using smc_interrupted [of 0 env_ok ?cmd 0] by simp
    then show ?thesis
      by (simp add: uu_qcom_scm_call_def)
  qed
  have sm: "shared_mem env_ok = fw_complete"
    by (simp add: env_ok_def)
  have lv: "length (fw_complete ?cmd k) = 4096" for k
    using l r by (simp add: fw_complete_def Let_def)
  have v8: "get_le32 (fw_complete ?cmd k) 8 = 20" for k
    using l r by (simp add: fw_complete_def Let_def get_put_le32_below)
  have v24: "get_le32 (fw_complete ?cmd k) 24 = 12" for k
    using l r by (simp add: fw_complete_def Let_def get_put_le32_below)
  have v28: "get_le32 (fw_complete ?cmd k) 28 = 1" for k
    using l r by (simp add: fw_complete_def Let_def)
  have w: "wait_complete (fw_complete ?cmd) 20 0 = Some (Complete (Suc 0))"
    by (rule wait_complete_now) (simp_all add: lv v28)
  have "qcom_scm_call env_ok 1 2 None 4 (Some [9, 9, 9, 9]) 4 =
           Some (Return 0
                  (Some (load (unat (qcom_scm_get_response_buffer (shared_mem env_ok ?cmd (Suc (Suc 0))) 20))
                           (unat (4::u32)) (shared_mem env_ok ?cmd (Suc (Suc 0)))
                         @ drop (unat (4::u32)) [9, 9, 9, 9]))
                  (Kzalloc (PAGE_ALIGN (PAGE_SHIFT env_ok) (alloc_len 4 4)) #
                   (case None :: u8 list option of None \<Rightarrow> [] | Some src \<Rightarrow> [Memcpy_cmd]) @
                   Mutex_lock # [Secure_flush_area, Smc ?cmd] @ Mutex_unlock #
                   replicate (Suc 0) (Inv_range 20 (20 + of_nat sizeof_qcom_scm_response)) @
                   [Inv_range 20 (qcom_scm_get_response_buffer (shared_mem env_ok ?cmd (Suc 0)) 20 + 4),
                    Memcpy_resp, Kfree]))"
    by (rule qcom_scm_call_completes [OF prepare_env_ok trap])
       (simp_all add: sm lv v8 v24 w qcom_scm_command_to_response_def qcom_scm_get_response_buffer_def)
  moreover have "fw_complete ?cmd (Suc (Suc 0)) = fw_complete ?cmd 2"
    by (simp add: fw_complete_def)
  ultimately show ?thesis
    by (simp add: sz sm v24 qcom_scm_get_response_buffer_def)
qed


end
